theory Spec2Isabelle
  imports Complex_Main "HOL-Library.AList"
begin

section \<open>The catalog of the music server (server/src/index.ts)\<close>

subsection \<open>Data model\<close>

text \<open>
  The type \<open>Track\<close> of the source: every field but \<open>relativePath\<close> is optional
  (\<open>undefined\<close> is \<open>None\<close>). A JavaScript number that counts bytes is an \<open>int\<close>; the
  duration, which the program only passes on, is a \<open>real\<close>.
\<close>

record Track =
  relativePath :: string
  cid :: "string option"
  size' :: "int option"
  title :: "string option"
  artist :: "string option"
  album :: "string option"
  duration :: "real option"
  mime :: "string option"

text \<open>
  The catalog \<open>Record<string, Track>\<close>, as the list of its properties in enumeration
  order (the order of \<open>Object.values\<close>). Reading \<open>state[k]\<close> is \<open>map_of state k\<close>;
  the assignment \<open>state[k] = t\<close> is \<open>AList.update k t state\<close>: an existing key keeps
  its place, a new key goes last.
\<close>

type_synonym state = "(string \<times> Track) list"

text \<open>
  What \<open>parseFile\<close> of music-metadata resolves to, narrowed to the fields the program
  reads: \<open>common.title\<close>, \<open>common.artists\<close>, \<open>common.artist\<close>, \<open>common.album\<close> and
  \<open>format.duration\<close>.
\<close>

record IAudioMetadata =
  common_title :: "string option"
  common_artists :: "string list option"
  common_artist :: "string option"
  common_album :: "string option"
  format_duration :: "real option"

text \<open>
  The directory tree as \<open>readdirSync\<close> with \<open>withFileTypes\<close> shows it. A directory
  carries its entries by name; \<open>UnreadableDirectory\<close> is a directory on which
  \<open>readdirSync\<close> throws (no permission, vanished meanwhile). \<open>isDirectory\<close> is the
  method of \<open>Dirent\<close>: false for a symbolic link, whatever it points to.
\<close>

datatype dirent =
  RegularFile | Symlink | Directory "(string \<times> dirent) list" | UnreadableDirectory

fun isDirectory :: "dirent \<Rightarrow> bool" where
  "isDirectory (Directory entries) = True"
| "isDirectory UnreadableDirectory = True"
| "isDirectory RegularFile = False"
| "isDirectory Symlink = False"

datatype error = ReaddirError | StatError | AddError | WriteError

text \<open>
  The content of \<open>STATE_FILE\<close>: a text that \<open>JSON.parse\<close> accepts, given by the
  catalog it denotes (the text \<open>JSON.stringify\<close> makes of that catalog; the parsed value
  is a catalog, as the return type of \<open>loadState\<close> says), or any text that
  \<open>JSON.parse\<close> rejects. The disk is \<open>None\<close> while the file does not exist.
\<close>

datatype content = Json state | Corrupt

type_synonym disk = "content option"

text \<open>
  Everything the program obtains from outside: its configuration, the directory tree,
  and the library calls, each as the function of its arguments that it is during one
  run. A call that throws (or a promise that rejects) is \<open>None\<close>; \<open>mimeLookup\<close> is
  \<open>None\<close> where the library returns \<open>false\<close>. \<open>state_writable\<close> says whether the save
  of the catalog runs to its end, and \<open>write_fails_opened\<close> whether a save that throws
  does so after \<open>writeFileSync\<close> has opened the file.
\<close>

record env =
  MUSIC_DIR :: string
  music_tree :: dirent
  path_join :: "string \<Rightarrow> string \<Rightarrow> string"
  path_relative :: "string \<Rightarrow> string \<Rightarrow> string"
  path_extname :: "string \<Rightarrow> string"
  statSync :: "string \<Rightarrow> int option"
  parseFile :: "string \<Rightarrow> IAudioMetadata option"
  ipfs_add :: "string \<Rightarrow> string option"
  mimeLookup :: "string \<Rightarrow> string option"
  state_writable :: bool
  write_fails_opened :: bool

record result =
  total' :: nat
  added :: nat

subsection \<open>isAudioFile\<close>

definition AUDIO_EXTS :: "string list" where
  "AUDIO_EXTS = [''.mp3'', ''.flac'', ''.m4a'', ''.aac'', ''.wav'', ''.ogg'', ''.opus'']"

text \<open>\<open>toLowerCase\<close> on the ASCII letters, which are all that \<open>AUDIO_EXTS\<close> holds.\<close>

definition toLowerCase :: "string \<Rightarrow> string" where
  "toLowerCase s =
     map (\<lambda>c. case map_of (zip ''ABCDEFGHIJKLMNOPQRSTUVWXYZ'' ''abcdefghijklmnopqrstuvwxyz'') c of
                 None \<Rightarrow> c | Some l \<Rightarrow> l) s"

definition isAudioFile :: "env \<Rightarrow> string \<Rightarrow> bool" where
  "isAudioFile e filePath = (toLowerCase (path_extname e filePath) \<in> set AUDIO_EXTS)"

subsection \<open>walk\<close>

text \<open>
  \<open>walk\<close> reads the directory and runs the \<open>for\<close> loop over its entries
  (\<open>walk_loop\<close>, with the array \<open>out\<close> as accumulator). Nothing catches an exception of
  \<open>readdirSync\<close>: it leaves every enclosing call. \<open>readdirSync\<close> also throws on a path
  that is no directory.
\<close>

function walk :: "(string \<Rightarrow> string \<Rightarrow> string) \<Rightarrow> string \<Rightarrow> dirent \<Rightarrow> error + string list"
and walk_loop :: "(string \<Rightarrow> string \<Rightarrow> string) \<Rightarrow> string \<Rightarrow> (string \<times> dirent) list \<Rightarrow> string list \<Rightarrow> error + string list"
where
  "walk join dir (Directory entries) = walk_loop join dir entries []"
| "walk join dir UnreadableDirectory = Inl ReaddirError"
| "walk join dir RegularFile = Inl ReaddirError"
| "walk join dir Symlink = Inl ReaddirError"
| "walk_loop join dir [] out = Inr out"
| "walk_loop join dir ((name, entry) # rest) out =
     (let full = join dir name in
      if isDirectory entry then
        (case walk join full entry of
           Inl err \<Rightarrow> Inl err
         | Inr files \<Rightarrow> walk_loop join dir rest (out @ files))
      else walk_loop join dir rest (out @ [full]))"
  by pat_completeness auto
termination
  by (relation "measure (case_sum (\<lambda>(j, d, e). 2 * size e)
        (\<lambda>(j, d, es, out). 2 * size_list (size_prod (\<lambda>_. 0) size) es + 1))") auto

text \<open>
  The walk the specification describes: an entry that cannot be read is skipped, and
  every other entry that is not a directory is enumerated, at any depth.
\<close>

function walk_skipping :: "(string \<Rightarrow> string \<Rightarrow> string) \<Rightarrow> string \<Rightarrow> dirent \<Rightarrow> string list"
and walk_skipping_loop :: "(string \<Rightarrow> string \<Rightarrow> string) \<Rightarrow> string \<Rightarrow> (string \<times> dirent) list \<Rightarrow> string list"
where
  "walk_skipping join dir (Directory entries) = walk_skipping_loop join dir entries"
| "walk_skipping join dir UnreadableDirectory = []"
| "walk_skipping join dir RegularFile = []"
| "walk_skipping join dir Symlink = []"
| "walk_skipping_loop join dir [] = []"
| "walk_skipping_loop join dir ((name, entry) # rest) =
     (if isDirectory entry then walk_skipping join (join dir name) entry
      else [join dir name]) @ walk_skipping_loop join dir rest"
  by pat_completeness auto
termination
  by (relation "measure (case_sum (\<lambda>(j, d, e). 2 * size e)
        (\<lambda>(j, d, es). 2 * size_list (size_prod (\<lambda>_. 0) size) es + 1))") auto

text \<open>Every directory of the tree can be read.\<close>

function readable :: "dirent \<Rightarrow> bool"
and readable_entries :: "(string \<times> dirent) list \<Rightarrow> bool"
where
  "readable (Directory entries) = readable_entries entries"
| "readable UnreadableDirectory = False"
| "readable RegularFile = False"
| "readable Symlink = False"
| "readable_entries [] = True"
| "readable_entries ((name, entry) # rest) =
     ((if isDirectory entry then readable entry else True) \<and> readable_entries rest)"
  by pat_completeness auto
termination
  by (relation "measure (case_sum (\<lambda>e. 2 * size e)
        (\<lambda>es. 2 * size_list (size_prod (\<lambda>_. 0) size) es + 1))") auto

subsection \<open>loadState and saveState\<close>

text \<open>
  \<open>loadState\<close> catches whatever \<open>readFileSync\<close> or \<open>JSON.parse\<close> throws and returns
  the empty catalog then.
\<close>

definition loadState :: "disk \<Rightarrow> state" where
  "loadState d = (case d of None \<Rightarrow> [] | Some Corrupt \<Rightarrow> [] | Some (Json st) \<Rightarrow> st)"

text \<open>
  \<open>saveState\<close> is one \<open>writeFileSync\<close> on \<open>STATE_FILE\<close> itself: the file is opened
  for writing, which empties it, and the text is written into it. \<open>progress\<close> says how
  far the call has come when the process stops or the call throws. The text is that of
  an object, so while it is written only in part (or not at all) the file holds no text
  that \<open>JSON.parse\<close> accepts.
\<close>

datatype progress = NotOpened | Truncated | Written

definition writeFileSync_upto :: "progress \<Rightarrow> state \<Rightarrow> disk \<Rightarrow> disk" where
  "writeFileSync_upto p st d =
     (case p of NotOpened \<Rightarrow> d | Truncated \<Rightarrow> Some Corrupt | Written \<Rightarrow> Some (Json st))"

text \<open>
  \<open>saveState\<close> returns the file it leaves, or throws and leaves a file: when
  \<open>mkdirSync\<close> throws, or \<open>writeFileSync\<close> throws on opening the file (no permission),
  the file is as it was; when \<open>writeFileSync\<close> throws after it has opened the file (no
  space left, input/output error), the file is left truncated.
\<close>

definition saveState :: "env \<Rightarrow> state \<Rightarrow> disk \<Rightarrow> error \<times> disk + disk" where
  "saveState e st d =
     (if state_writable e then Inr (writeFileSync_upto Written st d)
      else Inl (WriteError,
             writeFileSync_upto (if write_fails_opened e then Truncated else NotOpened) st d))"

subsection \<open>scanAndIndex\<close>

text \<open>JavaScript truthiness of an optional string: defined and not empty.\<close>

definition truthy :: "string option \<Rightarrow> bool" where
  "truthy s = (case s of None \<Rightarrow> False | Some v \<Rightarrow> v \<noteq> [])"

text \<open>
  The guard of line 88, \<open>prev && prev.size === stat.size && prev.cid\<close>, negated: the
  file is ingested unless the guard holds.
\<close>

definition needsIngest :: "int \<Rightarrow> Track option \<Rightarrow> bool" where
  "needsIngest currentSize prev =
     (case prev of
        None \<Rightarrow> True
      | Some p \<Rightarrow> \<not> (size' p = Some currentSize \<and> truthy (cid p)))"

fun join_array :: "string \<Rightarrow> string list \<Rightarrow> string" where
  "join_array sep [] = []"
| "join_array sep [x] = x"
| "join_array sep (x # y # ys) = x @ sep @ join_array sep (y # ys)"

record meta =
  meta_title :: "string option"
  meta_artist :: "string option"
  meta_album :: "string option"
  meta_duration :: "real option"

text \<open>
  Lines 93 to 102: \<open>meta\<close> stays \<open>{}\<close> when \<open>parseFile\<close> throws. The artist is
  \<open>(artists && artists.join(", ")) || artist\<close>.
\<close>

definition readMeta :: "env \<Rightarrow> string \<Rightarrow> meta" where
  "readMeta e absPath =
     (case parseFile e absPath of
        None \<Rightarrow> \<lparr>meta_title = None, meta_artist = None, meta_album = None, meta_duration = None\<rparr>
      | Some m \<Rightarrow>
          \<lparr>meta_title = common_title m,
           meta_artist =
             (let joined = map_option (join_array '', '') (common_artists m)
              in if truthy joined then joined else common_artist m),
           meta_album = common_album m,
           meta_duration = format_duration m\<rparr>)"

text \<open>Line 109: \<open>mimeLookup(absPath) || "application/octet-stream"\<close>.\<close>

definition mimeType :: "env \<Rightarrow> string \<Rightarrow> string" where
  "mimeType e absPath =
     (case mimeLookup e absPath of
        None \<Rightarrow> ''application/octet-stream''
      | Some m \<Rightarrow> if m = [] then ''application/octet-stream'' else m)"

text \<open>The entry of lines 111 to 120.\<close>

definition newTrack :: "env \<Rightarrow> string \<Rightarrow> int \<Rightarrow> string \<Rightarrow> Track" where
  "newTrack e absPath sz c =
     (let rel = path_relative e (MUSIC_DIR e) absPath; m = readMeta e absPath
      in \<lparr>relativePath = rel, cid = Some c, size' = Some sz,
          title = meta_title m, artist = meta_artist m, album = meta_album m,
          duration = meta_duration m, mime = Some (mimeType e absPath)\<rparr>)"

text \<open>
  The task queued for one file (lines 84 to 122), on the variables it shares with the
  other tasks: the catalog \<open>state\<close>, the counter \<open>added\<close>, and the list of the files
  pushed to the store so far. An exception of \<open>statSync\<close> or a rejection of \<open>ipfs.add\<close>
  rejects the task's promise; a failure of \<open>parseFile\<close> is caught.
\<close>

definition indexFile :: "env \<Rightarrow> string \<Rightarrow> state \<times> nat \<times> string list \<Rightarrow> error + state \<times> nat \<times> string list" where
  "indexFile e absPath vars =
     (case vars of (st, n, pushed) \<Rightarrow>
        let rel = path_relative e (MUSIC_DIR e) absPath in
        (case statSync e absPath of
           None \<Rightarrow> Inl StatError
         | Some sz \<Rightarrow>
             if \<not> needsIngest sz (map_of st rel) then Inr (st, n, pushed)
             else
               (case ipfs_add e absPath of
                  None \<Rightarrow> Inl AddError
                | Some c \<Rightarrow>
                    Inr (AList.update rel (newTrack e absPath sz c) st, n + 1, pushed @ [absPath]))))"

text \<open>
  \<open>Promise.all\<close> over the tasks: it rejects as soon as one task rejects, and
  \<open>scanAndIndex\<close> then throws without reaching \<open>saveState\<close>. The tasks are run here
  in the order of the list. The tasks of files with different relative paths write
  different keys of \<open>state\<close>, so the catalog as a map, the counter and the set of pushed
  files do not depend on how the queue interleaves them (\<open>runs\<close> below, and lemma
  \<open>runs_agree_with_indexAll\<close>); only the enumeration order of new keys does, and no
  statement below reads it.
\<close>

fun indexAll :: "env \<Rightarrow> string list \<Rightarrow> state \<times> nat \<times> string list \<Rightarrow> error + state \<times> nat \<times> string list" where
  "indexAll e [] vars = Inr vars"
| "indexAll e (absPath # rest) vars =
     (case indexFile e absPath vars of
        Inl err \<Rightarrow> Inl err
      | Inr vars' \<Rightarrow> indexAll e rest vars')"

text \<open>Line 75: \<open>walk(MUSIC_DIR).filter(isAudioFile)\<close>.\<close>

definition absFiles :: "env \<Rightarrow> error + string list" where
  "absFiles e =
     (case walk (path_join e) (MUSIC_DIR e) (music_tree e) of
        Inl err \<Rightarrow> Inl err
      | Inr files \<Rightarrow> Inr (filter (isAudioFile e) files))"

text \<open>
  \<open>scanAndIndex\<close> returns what the function returns or throws, together with the state
  file afterwards. A run that returns also yields the list of the files it pushed to the
  store.
\<close>

definition scanAndIndex :: "env \<Rightarrow> disk \<Rightarrow> (error + result \<times> string list) \<times> disk" where
  "scanAndIndex e d =
     (case absFiles e of
        Inl err \<Rightarrow> (Inl err, d)
      | Inr files \<Rightarrow>
          (case indexAll e files (loadState d, 0, []) of
             Inl err \<Rightarrow> (Inl err, d)
           | Inr (st, n, pushed) \<Rightarrow>
               (case saveState e st d of
                  Inl (err, d') \<Rightarrow> (Inl err, d')
                | Inr d' \<Rightarrow> (Inr (\<lparr>total' = length files, added = n\<rparr>, pushed), d'))))"

subsection \<open>The stream route\<close>

text \<open>
  Lines 169 to 171 of the handler of \<open>/api/stream/:cid\<close>: the content type is
  \<open>match?.mime || "audio/mpeg"\<close> for the first value of the catalog whose \<open>cid\<close> is the
  requested one.
\<close>

definition stream_ct :: "disk \<Rightarrow> string \<Rightarrow> string" where
  "stream_ct d c =
     (case find (\<lambda>t. cid t = Some c) (map snd (loadState d)) of
        None \<Rightarrow> ''audio/mpeg''
      | Some t \<Rightarrow> if truthy (mime t) then the (mime t) else ''audio/mpeg'')"

text \<open>Every entry of the catalog that has a \<open>cid\<close> has a \<open>mime\<close> that is not empty.\<close>

definition mime_set :: "state \<Rightarrow> bool" where
  "mime_set st = (\<forall>(k, t) \<in> set st. cid t \<noteq> None \<longrightarrow> truthy (mime t))"

text \<open>
  The catalog files the program can leave: none before the first run, and after a run
  of \<open>scanAndIndex\<close>, in whatever environment, what that run leaves.
\<close>

inductive reachable :: "disk \<Rightarrow> bool" where
  absent: "reachable None"
| run: "reachable d \<Longrightarrow> scanAndIndex e d = (out, d') \<Longrightarrow> reachable d'"

subsection \<open>What the task of one file does, read off the catalog it starts from\<close>

text \<open>
  The key of a file is its path relative to \<open>MUSIC_DIR\<close>. The task of a file fails when
  \<open>statSync\<close> throws or when the file has to be ingested and the push is rejected; it
  skips the file when the guard of line 88 holds; otherwise it ingests the file and
  writes the entry \<open>ingested\<close>.
\<close>

abbreviation rel :: "env \<Rightarrow> string \<Rightarrow> string" where
  "rel e absPath \<equiv> path_relative e (MUSIC_DIR e) absPath"

definition fails :: "env \<Rightarrow> state \<Rightarrow> string \<Rightarrow> bool" where
  "fails e st f =
     (case statSync e f of
        None \<Rightarrow> True
      | Some sz \<Rightarrow> needsIngest sz (map_of st (rel e f)) \<and> ipfs_add e f = None)"

definition ingests :: "env \<Rightarrow> state \<Rightarrow> string \<Rightarrow> bool" where
  "ingests e st f =
     (case statSync e f of
        None \<Rightarrow> False
      | Some sz \<Rightarrow> needsIngest sz (map_of st (rel e f)) \<and> ipfs_add e f \<noteq> None)"

definition skips :: "env \<Rightarrow> state \<Rightarrow> string \<Rightarrow> bool" where
  "skips e st f =
     (case statSync e f of
        None \<Rightarrow> False
      | Some sz \<Rightarrow> \<not> needsIngest sz (map_of st (rel e f)))"

definition ingested :: "env \<Rightarrow> string \<Rightarrow> Track" where
  "ingested e f = newTrack e f (the (statSync e f)) (the (ipfs_add e f))"

text \<open>Two catalogs that hold the same sizes and content identifiers under the same keys.\<close>

definition agree :: "state \<Rightarrow> state \<Rightarrow> bool" where
  "agree a b =
     (\<forall>k. map_option (\<lambda>t. (size' t, cid t)) (map_of a k) = map_option (\<lambda>t. (size' t, cid t)) (map_of b k))"

subsection \<open>The tasks interleaved\<close>

text \<open>
  The queue starts the tasks in the order of the list. A task runs without interruption
  up to its first \<open>await\<close>: it reads the size of its file (\<open>stat_throws\<close>), returns at
  the guard of line 88 (\<open>unchanged\<close>) or suspends (\<open>suspend\<close>), keeping the size it
  read. Between \<open>await parseFile\<close> and \<open>await ipfs.add\<close> it touches no shared variable.
  When the push settles, in any order among the suspended tasks, the task rejects
  (\<open>add_rejects\<close>) or writes its entry and counts (\<open>resume\<close>). \<open>runs e q aw vars out\<close>:
  with the files \<open>q\<close> still queued and the tasks \<open>aw\<close> suspended, the shared variables
  \<open>vars\<close> can end as \<open>out\<close>. No bound on the number of suspended tasks is imposed, so
  the schedules of a queue of any concurrency are among these.
\<close>

inductive runs :: "env \<Rightarrow> string list \<Rightarrow> (string \<times> int) list \<Rightarrow> state \<times> nat \<times> string list \<Rightarrow>
    error + state \<times> nat \<times> string list \<Rightarrow> bool"
  for e :: env
where
  settled: "runs e [] [] vars (Inr vars)"
| stat_throws: "statSync e f = None \<Longrightarrow> runs e (f # q) aw vars (Inl StatError)"
| unchanged:
    "statSync e f = Some sz \<Longrightarrow> \<not> needsIngest sz (map_of st (rel e f)) \<Longrightarrow>
     runs e q aw (st, n, p) out \<Longrightarrow> runs e (f # q) aw (st, n, p) out"
| suspend:
    "statSync e f = Some sz \<Longrightarrow> needsIngest sz (map_of st (rel e f)) \<Longrightarrow>
     runs e q (aw @ [(f, sz)]) (st, n, p) out \<Longrightarrow> runs e (f # q) aw (st, n, p) out"
| add_rejects: "(f, sz) \<in> set aw \<Longrightarrow> ipfs_add e f = None \<Longrightarrow> runs e q aw vars (Inl AddError)"
| resume:
    "ipfs_add e f = Some c \<Longrightarrow>
     runs e q (aw1 @ aw2) (AList.update (rel e f) (newTrack e f sz c) st, n + 1, p @ [f]) out \<Longrightarrow>
     runs e q (aw1 @ (f, sz) # aw2) (st, n, p) out"

text \<open>Every suspended task has read the size it keeps and has passed the guard.\<close>

definition awaiting_ok :: "env \<Rightarrow> state \<Rightarrow> (string \<times> int) list \<Rightarrow> bool" where
  "awaiting_ok e st aw =
     (\<forall>(f, sz) \<in> set aw. statSync e f = Some sz \<and> needsIngest sz (map_of st (rel e f)))"

text \<open>
  What the files \<open>xs\<close> make of the shared variables, read off the catalog the tasks
  start from: an error when some task fails; otherwise the new entry under the key of
  every ingested file, every other key untouched, and the ingested files counted and
  pushed.
\<close>

definition outcome_of :: "env \<Rightarrow> string list \<Rightarrow> state \<times> nat \<times> string list \<Rightarrow>
    error + state \<times> nat \<times> string list \<Rightarrow> bool" where
  "outcome_of e xs vars out =
     (case vars of (st, n, p) \<Rightarrow>
        (case out of
           Inl err \<Rightarrow> (\<exists>g \<in> set xs. fails e st g)
         | Inr (st', n', p') \<Rightarrow>
             (\<forall>g \<in> set xs. \<not> fails e st g) \<and>
             n' = n + length (filter (ingests e st) xs) \<and>
             set p' = set p \<union> set (filter (ingests e st) xs) \<and>
             (\<forall>g \<in> set xs. ingests e st g \<longrightarrow> map_of st' (rel e g) = Some (ingested e g)) \<and>
             (\<forall>k. k \<notin> rel e ` set (filter (ingests e st) xs) \<longrightarrow> map_of st' k = map_of st k)))"

subsection \<open>Example inputs\<close>

definition posix_join :: "string \<Rightarrow> string \<Rightarrow> string" where
  "posix_join d n = d @ ''/'' @ n"

definition demo_tree :: dirent where
  "demo_tree =
     Directory [(''a.mp3'', RegularFile),
                (''sub'', Directory [(''b.FLAC'', RegularFile), (''c.ogg'', RegularFile)]),
                (''notes.txt'', RegularFile)]"

text \<open>
  Three audio files under \<open>/music\<close>; the extractor fails on every file but
  \<open>a.mp3\<close>; the store answers every push.
\<close>

definition demo_env :: env where
  "demo_env =
     \<lparr>MUSIC_DIR = ''/music'',
      music_tree = demo_tree,
      path_join = posix_join,
      path_relative = (\<lambda>from to. drop (length from + 1) to),
      path_extname = dropWhile (\<lambda>c. c \<noteq> CHR ''.''),
      statSync = (\<lambda>p. if p = ''/music/a.mp3'' then Some 3
                     else if p = ''/music/sub/b.FLAC'' then Some 5
                     else if p = ''/music/sub/c.ogg'' then Some 7 else None),
      parseFile = (\<lambda>p. if p = ''/music/a.mp3''
                     then Some \<lparr>common_title = Some ''Song'', common_artists = Some [''Ann'', ''Bob''],
                                 common_artist = Some ''Ann'', common_album = None,
                                 format_duration = Some 2\<rparr>
                     else None),
      ipfs_add = (\<lambda>p. Some (''Qm'' @ p)),
      mimeLookup = (\<lambda>p. if p = ''/music/a.mp3'' then Some ''audio/mpeg'' else None),
      state_writable = True,
      write_fails_opened = False\<rparr>"

text \<open>The same, with a store that rejects the push of \<open>b.FLAC\<close>.\<close>

definition demo_env_push_fails :: env where
  "demo_env_push_fails =
     demo_env\<lparr>ipfs_add := (\<lambda>p. if p = ''/music/sub/b.FLAC'' then None else Some (''Qm'' @ p))\<rparr>"

text \<open>The same, with a save that throws after the catalog file was opened.\<close>

definition demo_env_save_fails :: env where
  "demo_env_save_fails = demo_env\<lparr>state_writable := False, write_fails_opened := True\<rparr>"

definition demo_track :: Track where
  "demo_track =
     \<lparr>relativePath = ''sub/b.FLAC'', cid = Some ''QmOld'', size' = Some 4,
      title = None, artist = None, album = None, duration = None, mime = Some ''audio/flac''\<rparr>"

definition demo_gone :: Track where
  "demo_gone =
     \<lparr>relativePath = ''gone.mp3'', cid = Some ''QmGone'', size' = Some 9,
      title = Some ''Gone'', artist = None, album = None, duration = None, mime = Some ''audio/mpeg''\<rparr>"

text \<open>A catalog from an earlier run, and the catalog after a run of \<open>demo_env\<close> on it.\<close>

definition demo_old_catalog :: state where
  "demo_old_catalog = [(''gone.mp3'', demo_gone), (''sub/b.FLAC'', demo_track)]"

definition demo_new_catalog :: state where
  "demo_new_catalog =
     [(''gone.mp3'', demo_gone),
      (''sub/b.FLAC'',
       \<lparr>relativePath = ''sub/b.FLAC'', cid = Some ''Qm/music/sub/b.FLAC'', size' = Some 5,
        title = None, artist = None, album = None, duration = None,
        mime = Some ''application/octet-stream''\<rparr>),
      (''a.mp3'',
       \<lparr>relativePath = ''a.mp3'', cid = Some ''Qm/music/a.mp3'', size' = Some 3,
        title = Some ''Song'', artist = Some ''Ann, Bob'', album = None, duration = Some 2,
        mime = Some ''audio/mpeg''\<rparr>),
      (''sub/c.ogg'',
       \<lparr>relativePath = ''sub/c.ogg'', cid = Some ''Qm/music/sub/c.ogg'', size' = Some 7,
        title = None, artist = None, album = None, duration = None,
        mime = Some ''application/octet-stream''\<rparr>)]"

definition demo_files :: "string list" where
  "demo_files = [''/music/a.mp3'', ''/music/sub/b.FLAC'', ''/music/sub/c.ogg'']"

text \<open>The catalog after a run of \<open>demo_env\<close> on an empty disk.\<close>

definition demo_catalog :: state where
  "demo_catalog =
     [(''a.mp3'',
       \<lparr>relativePath = ''a.mp3'', cid = Some ''Qm/music/a.mp3'', size' = Some 3,
        title = Some ''Song'', artist = Some ''Ann, Bob'', album = None, duration = Some 2,
        mime = Some ''audio/mpeg''\<rparr>),
      (''sub/b.FLAC'',
       \<lparr>relativePath = ''sub/b.FLAC'', cid = Some ''Qm/music/sub/b.FLAC'', size' = Some 5,
        title = None, artist = None, album = None, duration = None,
        mime = Some ''application/octet-stream''\<rparr>),
      (''sub/c.ogg'',
       \<lparr>relativePath = ''sub/c.ogg'', cid = Some ''Qm/music/sub/c.ogg'', size' = Some 7,
        title = None, artist = None, album = None, duration = None,
        mime = Some ''application/octet-stream''\<rparr>)]"

text \<open>
  A store that answers the pushes of \<open>b.FLAC\<close> and \<open>c.ogg\<close> with the same identifier
  (files of the same content), and the catalog after a run on an empty disk.
\<close>

definition demo_env_same_cid :: env where
  "demo_env_same_cid =
     demo_env\<lparr>ipfs_add := (\<lambda>p. if p = ''/music/a.mp3'' then Some ''QmA'' else Some ''QmSame''),
              mimeLookup := (\<lambda>p. if p = ''/music/sub/b.FLAC'' then Some ''audio/flac'' else None)\<rparr>"

definition demo_same_catalog :: state where
  "demo_same_catalog =
     [(''a.mp3'',
       \<lparr>relativePath = ''a.mp3'', cid = Some ''QmA'', size' = Some 3,
        title = Some ''Song'', artist = Some ''Ann, Bob'', album = None, duration = Some 2,
        mime = Some ''application/octet-stream''\<rparr>),
      (''sub/b.FLAC'',
       \<lparr>relativePath = ''sub/b.FLAC'', cid = Some ''QmSame'', size' = Some 5,
        title = None, artist = None, album = None, duration = None,
        mime = Some ''audio/flac''\<rparr>),
      (''sub/c.ogg'',
       \<lparr>relativePath = ''sub/c.ogg'', cid = Some ''QmSame'', size' = Some 7,
        title = None, artist = None, album = None, duration = None,
        mime = Some ''application/octet-stream''\<rparr>)]"

section \<open>Properties\<close>

subsection \<open>The walk\<close>

lemma walk_readable:
  "walk join dir e = (if readable e then Inr (walk_skipping join dir e) else Inl ReaddirError)"
  "walk_loop join dir es out =
     (if readable_entries es then Inr (out @ walk_skipping_loop join dir es) else Inl ReaddirError)"
proof (induction join dir e and join dir es out rule: walk_walk_loop.induct)
  case (6 join dir name entry rest out)
  show ?case
  proof (cases "isDirectory entry")
    case True
    with 6 show ?thesis by (simp add: Let_def)
  next
    case False
    with 6 show ?thesis by (simp add: Let_def)
  qed
qed simp_all

text \<open>
  Claim C7, as the code has it: when every directory of the tree can be read, \<open>walk\<close>
  returns every entry that is not a directory, at any depth (symbolic links among them,
  none followed); when \<open>readdirSync\<close> fails on one directory, the whole walk fails with
  that error and enumerates nothing.
\<close>

theorem C7_walk_all_or_nothing:
  "walk join dir e = (if readable e then Inr (walk_skipping join dir e) else Inl ReaddirError)"
  by (rule walk_readable)

text \<open>
  The claim as stated fails: with one unreadable directory beside a regular file, the
  tolerant walk yields the file, and \<open>walk\<close> throws.
\<close>

theorem C7_walk_aborts:
  "walk posix_join ''/music''
     (Directory [(''locked'', UnreadableDirectory), (''a.mp3'', RegularFile)]) = Inl ReaddirError
   \<and> walk_skipping posix_join ''/music''
     (Directory [(''locked'', UnreadableDirectory), (''a.mp3'', RegularFile)]) = [''/music/a.mp3'']"
  by (simp add: posix_join_def)

theorem C7_walk_witness:
  "readable demo_tree \<and>
   walk posix_join ''/music'' demo_tree =
     Inr [''/music/a.mp3'', ''/music/sub/b.FLAC'', ''/music/sub/c.ogg'', ''/music/notes.txt'']"
  using C7_walk_all_or_nothing [of posix_join "''/music''" demo_tree]
  by (simp add: demo_tree_def posix_join_def)

subsection \<open>Change detection\<close>

text \<open>
  Claim C4: the file is skipped exactly when a previous entry exists, its \<open>cid\<close> is
  defined and not empty, and its recorded size is the current size; in every other case
  it is ingested.
\<close>

theorem C4_needsIngest:
  "\<not> needsIngest currentSize prev \<longleftrightarrow>
     (\<exists>p. prev = Some p \<and> (\<exists>c. cid p = Some c \<and> c \<noteq> []) \<and> size' p = Some currentSize)"
  by (auto simp: needsIngest_def truthy_def split: option.splits)

theorem C4_needsIngest_witness:
  "\<not> needsIngest 4 (Some demo_track) \<and> needsIngest 5 (Some demo_track) \<and>
   needsIngest 4 (Some (demo_track\<lparr>cid := Some []\<rparr>)) \<and>
   needsIngest 4 (Some (demo_track\<lparr>cid := None\<rparr>)) \<and> needsIngest 4 None"
  using C4_needsIngest [of 4 "Some demo_track"] C4_needsIngest [of 5 "Some demo_track"]
    C4_needsIngest [of 4 "Some (demo_track\<lparr>cid := Some []\<rparr>)"]
    C4_needsIngest [of 4 "Some (demo_track\<lparr>cid := None\<rparr>)"] C4_needsIngest [of 4 None]
  by (simp add: demo_track_def)

subsection \<open>The catalog file\<close>

text \<open>
  Claim C2, as the code has it: \<open>saveState\<close> overwrites the catalog file in place. After
  a save that returns, a load returns the new catalog; after a save that throws, a load
  returns the prior catalog or the empty one. A save that stops after the file was
  opened and before the whole text is written leaves a truncated text, and a load then
  returns the empty catalog. So a load after a save that stopped anywhere returns the
  prior or the new catalog exactly when the save had not yet opened the file, or had
  written the whole text, or the prior or the new catalog is empty.
\<close>

theorem C2_save_overwrites_in_place:
  "(saveState e st d = Inr d' \<longrightarrow> loadState d' = st) \<and>
   (saveState e st d = Inl (err, d') \<longrightarrow> loadState d' = loadState d \<or> loadState d' = []) \<and>
   loadState (writeFileSync_upto Truncated st d) = [] \<and>
   ((loadState (writeFileSync_upto p st d) = loadState d \<or>
     loadState (writeFileSync_upto p st d) = st) \<longleftrightarrow>
    (p \<noteq> Truncated \<or> loadState d = [] \<or> st = []))"
proof (intro conjI impI)
  assume "saveState e st d = Inr d'"
  then show "loadState d' = st"
    by (auto simp: saveState_def writeFileSync_upto_def loadState_def split: if_splits)
next
  assume "saveState e st d = Inl (err, d')"
  then show "loadState d' = loadState d \<or> loadState d' = []"
    by (auto simp: saveState_def writeFileSync_upto_def loadState_def split: if_splits)
next
  show "loadState (writeFileSync_upto Truncated st d) = []"
    by (simp add: writeFileSync_upto_def loadState_def)
next
  show "(loadState (writeFileSync_upto p st d) = loadState d \<or>
     loadState (writeFileSync_upto p st d) = st) \<longleftrightarrow>
    (p \<noteq> Truncated \<or> loadState d = [] \<or> st = [])"
    by (cases p) (auto simp: writeFileSync_upto_def loadState_def)
qed

text \<open>
  The claim as stated fails: after a save interrupted in mid-write, the load returns
  neither the prior catalog nor the new one.
\<close>

theorem C2_interrupted_save_loses_catalog:
  "loadState (writeFileSync_upto Truncated demo_new_catalog (Some (Json demo_old_catalog)))
     \<noteq> loadState (Some (Json demo_old_catalog)) \<and>
   loadState (writeFileSync_upto Truncated demo_new_catalog (Some (Json demo_old_catalog)))
     \<noteq> demo_new_catalog"
  by (simp add: writeFileSync_upto_def loadState_def demo_old_catalog_def demo_new_catalog_def)

theorem C2_save_witness:
  "saveState demo_env demo_new_catalog (Some (Json demo_old_catalog)) = Inr (Some (Json demo_new_catalog)) \<and>
   loadState (Some (Json demo_new_catalog)) = demo_new_catalog \<and>
   saveState demo_env_save_fails demo_new_catalog (Some (Json demo_old_catalog)) =
     Inl (WriteError, Some Corrupt) \<and>
   loadState (Some Corrupt) = [] \<and>
   loadState (writeFileSync_upto NotOpened demo_new_catalog (Some (Json demo_old_catalog))) =
     loadState (Some (Json demo_old_catalog)) \<and>
   loadState (writeFileSync_upto Truncated demo_new_catalog (Some (Json demo_old_catalog))) = []"
proof -
  have 1: "saveState demo_env demo_new_catalog (Some (Json demo_old_catalog)) =
      Inr (Some (Json demo_new_catalog))"
    by (simp add: saveState_def writeFileSync_upto_def demo_env_def)
  have 2: "saveState demo_env_save_fails demo_new_catalog (Some (Json demo_old_catalog)) =
      Inl (WriteError, Some Corrupt)"
    by (simp add: saveState_def writeFileSync_upto_def demo_env_save_fails_def demo_env_def)
  note c2 = C2_save_overwrites_in_place [of _ demo_new_catalog "Some (Json demo_old_catalog)"]
  from c2 [of demo_env "Some (Json demo_new_catalog)"] 1
  have 3: "loadState (Some (Json demo_new_catalog)) = demo_new_catalog" by blast
  from c2 [of demo_env_save_fails "Some Corrupt" WriteError] 2
  have "loadState (Some Corrupt) = loadState (Some (Json demo_old_catalog)) \<or>
      loadState (Some Corrupt) = []" by blast
  then have 4: "loadState (Some Corrupt) = []"
    by (auto simp: loadState_def)
  have "NotOpened \<noteq> Truncated" by simp
  with c2 [of demo_env _ _ NotOpened]
  have "loadState (writeFileSync_upto NotOpened demo_new_catalog (Some (Json demo_old_catalog))) =
      loadState (Some (Json demo_old_catalog)) \<or>
    loadState (writeFileSync_upto NotOpened demo_new_catalog (Some (Json demo_old_catalog))) =
      demo_new_catalog" by blast
  then have 5: "loadState (writeFileSync_upto NotOpened demo_new_catalog (Some (Json demo_old_catalog))) =
      loadState (Some (Json demo_old_catalog))"
    by (simp add: writeFileSync_upto_def)
  from c2 [of demo_env]
  have 6: "loadState (writeFileSync_upto Truncated demo_new_catalog (Some (Json demo_old_catalog))) = []"
    by blast
  from 1 2 3 4 5 6 show ?thesis by simp
qed

subsection \<open>The tasks of a run\<close>

lemma indexFile_cases:
  "indexFile e f (st, n, p) =
     (if fails e st f then Inl (if statSync e f = None then StatError else AddError)
      else if skips e st f then Inr (st, n, p)
      else Inr (AList.update (rel e f) (ingested e f) st, n + 1, p @ [f]))"
  by (auto simp: indexFile_def fails_def skips_def ingested_def Let_def split: option.splits)

lemma not_fails_not_skips: "\<not> fails e st f \<Longrightarrow> \<not> skips e st f \<longleftrightarrow> ingests e st f"
  by (auto simp: fails_def skips_def ingests_def split: option.splits)

lemma preds_cong:
  assumes "map_of st' (rel e f) = map_of st (rel e f)"
  shows "fails e st' f = fails e st f" "skips e st' f = skips e st f" "ingests e st' f = ingests e st f"
  using assms by (simp_all add: fails_def skips_def ingests_def split: option.splits)

lemma indexAll_frame:
  "indexAll e fs (st, n, p) = Inr (st', n', p') \<Longrightarrow>
     \<exists>new. p' = p @ new \<and> n' = n + length new \<and> set new \<subseteq> set fs \<and>
       (\<forall>k. k \<notin> rel e ` set new \<longrightarrow> map_of st' k = map_of st k)"
proof (induction fs arbitrary: st n p)
  case Nil
  then show ?case by simp
next
  case (Cons f fs)
  from Cons.prems obtain st1 n1 p1 where
    step: "indexFile e f (st, n, p) = Inr (st1, n1, p1)" and
    rest: "indexAll e fs (st1, n1, p1) = Inr (st', n', p')"
    by (auto split: sum.splits)
  from Cons.IH [OF rest] obtain new where
    new: "p' = p1 @ new" "n' = n1 + length new" "set new \<subseteq> set fs"
      "\<forall>k. k \<notin> rel e ` set new \<longrightarrow> map_of st' k = map_of st1 k"
    by blast
  from step consider
    (skip) "st1 = st" "n1 = n" "p1 = p"
    | (ing) "st1 = AList.update (rel e f) (ingested e f) st" "n1 = n + 1" "p1 = p @ [f]"
    by (auto simp: indexFile_cases split: if_splits)
  then show ?case
  proof cases
    case skip
    with new show ?thesis by (intro exI [of _ new]) auto
  next
    case ing
    with new show ?thesis by (intro exI [of _ "f # new"]) (auto simp: update_conv')
  qed
qed


lemma indexAll_outside:
  assumes "indexAll e fs (st, n, p) = Inr (st', n', p')" and "k \<notin> rel e ` set fs"
  shows "map_of st' k = map_of st k"
  using indexAll_frame [OF assms(1)] assms(2) by blast

lemma indexAll_fresh:
  "indexAll e fs (st, n, p) = Inr (st', n', p') \<Longrightarrow> map_of st' k = Some t \<Longrightarrow>
     map_of st k = Some t \<or>
     (\<exists>f sz c. f \<in> set fs \<and> rel e f = k \<and> statSync e f = Some sz \<and> ipfs_add e f = Some c \<and>
        t = newTrack e f sz c)"
proof (induction fs arbitrary: st n p)
  case Nil
  then show ?case by simp
next
  case (Cons f fs)
  from Cons.prems(1) obtain st1 n1 p1 where
    step: "indexFile e f (st, n, p) = Inr (st1, n1, p1)" and
    rest: "indexAll e fs (st1, n1, p1) = Inr (st', n', p')"
    by (auto split: sum.splits)
  from Cons.IH [OF rest Cons.prems(2)] show ?case
  proof
    assume old: "map_of st1 k = Some t"
    from step show ?thesis
    proof (cases "needsIngest (the (statSync e f)) (map_of st (rel e f))")
      case False
      with step old show ?thesis
        by (auto simp: indexFile_def Let_def split: option.splits if_splits)
    next
      case True
      with step obtain sz c where
        sc: "statSync e f = Some sz" "ipfs_add e f = Some c"
          "st1 = AList.update (rel e f) (newTrack e f sz c) st"
        by (auto simp: indexFile_def Let_def split: option.splits if_splits)
      show ?thesis
      proof (cases "k = rel e f")
        case True
        with old sc have "t = newTrack e f sz c" by (simp add: update_conv')
        with True sc show ?thesis by auto
      next
        case False
        with old sc have "map_of st k = Some t" by (simp add: update_conv')
        then show ?thesis by simp
      qed
    qed
  next
    assume "\<exists>g sz c. g \<in> set fs \<and> rel e g = k \<and> statSync e g = Some sz \<and> ipfs_add e g = Some c \<and>
        t = newTrack e g sz c"
    then show ?thesis by auto
  qed
qed

lemma indexAll_dom:
  "indexAll e fs (st, n, p) = Inr (st', n', p') \<Longrightarrow> k \<in> dom (map_of st) \<Longrightarrow> k \<in> dom (map_of st')"
proof (induction fs arbitrary: st n p)
  case Nil
  then show ?case by simp
next
  case (Cons f fs)
  from Cons.prems(1) obtain st1 n1 p1 where
    step: "indexFile e f (st, n, p) = Inr (st1, n1, p1)" and
    rest: "indexAll e fs (st1, n1, p1) = Inr (st', n', p')"
    by (auto split: sum.splits)
  from step Cons.prems(2) have "k \<in> dom (map_of st1)"
    by (auto simp: indexFile_cases update_conv' split: if_splits)
  with Cons.IH [OF rest] show ?case by simp
qed

lemma relativePath_newTrack: "relativePath (newTrack e f sz c) = rel e f"
  by (simp add: newTrack_def Let_def)

text \<open>Files that are settled are passed over.\<close>

lemma indexAll_skips:
  "\<forall>f \<in> set fs. skips e st f \<Longrightarrow> indexAll e fs (st, n, p) = Inr (st, n, p)"
  by (induction fs) (auto simp: indexFile_def skips_def Let_def split: option.splits)

lemma skips_after_indexFile:
  assumes "indexFile e f (st, n, p) = Inr (st1, n1, p1)"
    and "\<forall>c. ipfs_add e f = Some c \<longrightarrow> c \<noteq> []"
  shows "skips e st1 f"
  using assms
  by (auto simp: indexFile_def skips_def Let_def needsIngest_def newTrack_def truthy_def
      update_conv' split: option.splits if_splits)

lemma skips_after_indexAll:
  "indexAll e fs (st, n, p) = Inr (st', n', p') \<Longrightarrow> distinct (map (rel e) fs) \<Longrightarrow>
   \<forall>f \<in> set fs. \<forall>c. ipfs_add e f = Some c \<longrightarrow> c \<noteq> [] \<Longrightarrow> \<forall>f \<in> set fs. skips e st' f"
proof (induction fs arbitrary: st n p)
  case Nil
  then show ?case by simp
next
  case (Cons f fs)
  from Cons.prems(1) obtain st1 n1 p1 where
    step: "indexFile e f (st, n, p) = Inr (st1, n1, p1)" and
    rest: "indexAll e fs (st1, n1, p1) = Inr (st', n', p')"
    by (auto split: sum.splits)
  from Cons.prems(2) have notin: "rel e f \<notin> rel e ` set fs" and dist: "distinct (map (rel e) fs)"
    by auto
  from Cons.prems(3) have cf: "\<forall>c. ipfs_add e f = Some c \<longrightarrow> c \<noteq> []"
    and cfs: "\<forall>g \<in> set fs. \<forall>c. ipfs_add e g = Some c \<longrightarrow> c \<noteq> []"
    by simp_all
  have s1: "skips e st1 f"
    using step cf by (rule skips_after_indexFile)
  have eq: "map_of st' (rel e f) = map_of st1 (rel e f)"
    using rest notin by (rule indexAll_outside)
  have "skips e st' f"
    using preds_cong(2) [OF eq] s1 by simp
  moreover have "\<forall>g \<in> set fs. skips e st' g"
    using Cons.IH [OF rest dist cfs] .
  ultimately show ?case by simp
qed

lemma indexAll_fails:
  "distinct (map (rel e) fs) \<Longrightarrow> \<exists>f \<in> set fs. fails e st f \<Longrightarrow>
     \<exists>err. indexAll e fs (st, n, p) = Inl err"
proof (induction fs arbitrary: st n p)
  case Nil
  then show ?case by simp
next
  case (Cons f fs)
  show ?case
  proof (cases "indexFile e f (st, n, p)")
    case (Inl err)
    then show ?thesis by simp
  next
    case (Inr vars)
    obtain st1 n1 p1 where vars: "vars = (st1, n1, p1)" by (cases vars) auto
    from Inr have nf: "\<not> fails e st f" by (auto simp: indexFile_cases split: if_splits)
    with Cons.prems(2) obtain g where g: "g \<in> set fs" "fails e st g" by auto
    from Cons.prems(1) g have "rel e g \<noteq> rel e f" by (auto simp: image_iff)
    with Inr vars have "map_of st1 (rel e g) = map_of st (rel e g)"
      by (auto simp: indexFile_cases update_conv' split: if_splits)
    from preds_cong(1) [OF this] g have "\<exists>g \<in> set fs. fails e st1 g" by auto
    moreover from Cons.prems(1) have "distinct (map (rel e) fs)" by simp
    ultimately have "\<exists>err. indexAll e fs (st1, n1, p1) = Inl err" by (rule Cons.IH [rotated])
    with Inr vars show ?thesis by simp
  qed
qed

lemma indexAll_succeeds:
  "distinct (map (rel e) fs) \<Longrightarrow> \<forall>f \<in> set fs. \<not> fails e st f \<Longrightarrow>
     \<exists>st'. indexAll e fs (st, n, p) =
        Inr (st', n + length (filter (ingests e st) fs), p @ filter (ingests e st) fs) \<and>
       (\<forall>f \<in> set fs. ingests e st f \<longrightarrow> map_of st' (rel e f) = Some (ingested e f))"
proof (induction fs arbitrary: st n p)
  case Nil
  then show ?case by simp
next
  case (Cons f fs)
  from Cons.prems have nf: "\<not> fails e st f" and nfs: "\<forall>g \<in> set fs. \<not> fails e st g"
    and notin: "rel e f \<notin> rel e ` set fs" and dist: "distinct (map (rel e) fs)"
    by auto
  show ?case
  proof (cases "skips e st f")
    case True
    then have ni: "\<not> ingests e st f" by (auto simp: skips_def ingests_def split: option.splits)
    from True nf have step: "indexFile e f (st, n, p) = Inr (st, n, p)"
      by (simp add: indexFile_cases)
    from Cons.IH [OF dist nfs, of n p] obtain st' where
      "indexAll e fs (st, n, p) =
         Inr (st', n + length (filter (ingests e st) fs), p @ filter (ingests e st) fs)"
      "\<forall>g \<in> set fs. ingests e st g \<longrightarrow> map_of st' (rel e g) = Some (ingested e g)"
      by blast
    with step ni show ?thesis by auto
  next
    case False
    with nf have ing: "ingests e st f" by (simp add: not_fails_not_skips)
    let ?st1 = "AList.update (rel e f) (ingested e f) st"
    from False nf have step: "indexFile e f (st, n, p) = Inr (?st1, n + 1, p @ [f])"
      by (simp add: indexFile_cases)
    have same: "map_of ?st1 (rel e g) = map_of st (rel e g)" if "g \<in> set fs" for g
    proof -
      from that notin have "rel e g \<noteq> rel e f" by (auto simp: image_iff)
      then show ?thesis by (simp add: update_conv')
    qed
    have nfs1: "\<forall>g \<in> set fs. \<not> fails e ?st1 g"
      using nfs preds_cong(1) [OF same] by simp
    have filt: "filter (ingests e ?st1) fs = filter (ingests e st) fs"
      using preds_cong(3) [OF same] by (auto intro: filter_cong)
    from Cons.IH [OF dist nfs1, of "n + 1" "p @ [f]"] obtain st' where
      run: "indexAll e fs (?st1, n + 1, p @ [f]) =
         Inr (st', n + 1 + length (filter (ingests e ?st1) fs), (p @ [f]) @ filter (ingests e ?st1) fs)"
      and new: "\<forall>g \<in> set fs. ingests e ?st1 g \<longrightarrow> map_of st' (rel e g) = Some (ingested e g)"
      by blast
    have "map_of st' (rel e f) = map_of ?st1 (rel e f)"
      using run notin by (rule indexAll_outside)
    then have atf: "map_of st' (rel e f) = Some (ingested e f)" by (simp add: update_conv')
    have "\<forall>g \<in> set fs. ingests e st g \<longrightarrow> map_of st' (rel e g) = Some (ingested e g)"
      using new preds_cong(3) [OF same] by simp
    with step run ing filt atf show ?thesis by auto
  qed
qed

subsection \<open>Every interleaving ends as the run in list order\<close>

lemma indexAll_outcome:
  assumes "distinct (map (rel e) fs)"
  shows "outcome_of e fs (st, n, p) (indexAll e fs (st, n, p))"
proof (cases "\<exists>f \<in> set fs. fails e st f")
  case True
  with assms obtain err where "indexAll e fs (st, n, p) = Inl err"
    using indexAll_fails by blast
  with True show ?thesis by (simp add: outcome_of_def)
next
  case False
  with assms obtain st' where
    run: "indexAll e fs (st, n, p) =
        Inr (st', n + length (filter (ingests e st) fs), p @ filter (ingests e st) fs)"
    and new: "\<forall>f \<in> set fs. ingests e st f \<longrightarrow> map_of st' (rel e f) = Some (ingested e f)"
    using indexAll_succeeds [of e fs st n p] by blast
  from indexAll_frame [OF run] have
    "\<forall>k. k \<notin> rel e ` set (filter (ingests e st) fs) \<longrightarrow> map_of st' k = map_of st k"
    by auto
  with False run new show ?thesis by (simp add: outcome_of_def)
qed

lemma indexAll_runs: "runs e fs [] vars (indexAll e fs vars)"
proof (induction fs arbitrary: vars)
  case Nil
  show ?case by (simp add: runs.settled)
next
  case (Cons f fs)
  obtain st n p where vars: "vars = (st, n, p)" by (cases vars) auto
  show ?case
  proof (cases "statSync e f")
    case None
    then show ?thesis by (simp add: vars indexFile_def runs.stat_throws)
  next
    case (Some sz)
    show ?thesis
    proof (cases "needsIngest sz (map_of st (rel e f))")
      case False
      with Some have "indexAll e (f # fs) vars = indexAll e fs (st, n, p)"
        by (simp add: vars indexFile_def)
      with Some False Cons.IH [of "(st, n, p)"] show ?thesis
        by (simp add: vars runs.unchanged)
    next
      case True
      show ?thesis
      proof (cases "ipfs_add e f")
        case None
        with Some True have "indexAll e (f # fs) vars = Inl AddError"
          by (simp add: vars indexFile_def)
        moreover have "runs e fs ([] @ [(f, sz)]) (st, n, p) (Inl AddError)"
          using None by (intro runs.add_rejects [of f sz]) simp_all
        ultimately show ?thesis using Some True by (simp add: vars runs.suspend)
      next
        case (Some c)
        let ?vars1 = "(AList.update (rel e f) (newTrack e f sz c) st, n + 1, p @ [f])"
        from Some \<open>statSync e f = Some sz\<close> True
        have eq: "indexAll e (f # fs) vars = indexAll e fs ?vars1"
          by (simp add: vars indexFile_def)
        have "runs e fs ([] @ []) ?vars1 (indexAll e fs ?vars1)"
          using Cons.IH [of ?vars1] by simp
        with Some have "runs e fs ([] @ (f, sz) # []) (st, n, p) (indexAll e fs ?vars1)"
          by (rule runs.resume)
        then have "runs e fs ([] @ [(f, sz)]) (st, n, p) (indexAll e fs ?vars1)" by simp
        with \<open>statSync e f = Some sz\<close> True have "runs e (f # fs) [] (st, n, p) (indexAll e fs ?vars1)"
          by (rule runs.suspend)
        with eq show ?thesis by (simp add: vars)
      qed
    qed
  qed
qed

lemma fails_stat: "statSync e f = None \<Longrightarrow> fails e st f"
  by (simp add: fails_def)

lemma awaiting_preds:
  assumes "awaiting_ok e st aw" and "(f, sz) \<in> set aw"
  shows "statSync e f = Some sz" "needsIngest sz (map_of st (rel e f))"
  using assms by (auto simp: awaiting_ok_def)

lemma outcome_of_cong:
  assumes "set xs = set ys" and "filter (ingests e st) xs = filter (ingests e st) ys"
  shows "outcome_of e xs (st, n, p) out = outcome_of e ys (st, n, p) out"
  using assms by (simp add: outcome_of_def split: sum.splits)

lemma runs_outcome:
  "runs e q aw vars out \<Longrightarrow> distinct (map (rel e) (map fst aw @ q)) \<Longrightarrow>
   awaiting_ok e (fst vars) aw \<Longrightarrow> outcome_of e (map fst aw @ q) vars out"
proof (induction rule: runs.induct)
  case (settled vars)
  then show ?case by (cases vars) (simp add: outcome_of_def)
next
  case (stat_throws f q aw vars)
  then have "fails e (fst vars) f" by (simp add: fails_stat)
  then show ?case by (cases vars) (auto simp: outcome_of_def)
next
  case (unchanged f sz st q aw n p out)
  from unchanged.prems have dist: "distinct (map (rel e) (map fst aw @ q))" by auto
  from unchanged.hyps have ni: "\<not> ingests e st f" and nf: "\<not> fails e st f"
    by (simp_all add: ingests_def fails_def)
  have IH: "outcome_of e (map fst aw @ q) (st, n, p) out"
    using unchanged.IH [OF dist] unchanged.prems(2) by simp
  from ni have filt: "filter (ingests e st) (map fst aw @ f # q) = filter (ingests e st) (map fst aw @ q)"
    by simp
  show ?case
  proof (cases out)
    case (Inl err)
    with IH show ?thesis by (auto simp: outcome_of_def)
  next
    case (Inr res)
    with IH nf ni show ?thesis by (auto simp: outcome_of_def)
  qed
next
  case (suspend f sz st q aw n p out)
  have "awaiting_ok e st (aw @ [(f, sz)])"
    using suspend.hyps suspend.prems(2) by (auto simp: awaiting_ok_def)
  with suspend.IH suspend.prems(1) show ?case by simp
next
  case (add_rejects f sz aw q vars)
  from awaiting_preds [OF add_rejects.prems(2) add_rejects.hyps(1)] add_rejects.hyps(2)
  have "fails e (fst vars) f" by (simp add: fails_def)
  moreover from add_rejects.hyps(1) have "f \<in> set (map fst aw @ q)" by force
  ultimately show ?case by (cases vars) (auto simp: outcome_of_def)
next
  case (resume f c q aw1 aw2 sz st n p out)
  let ?st1 = "AList.update (rel e f) (newTrack e f sz c) st"
  let ?xs = "map fst (aw1 @ (f, sz) # aw2) @ q"
  let ?ys = "map fst (aw1 @ aw2) @ q"
  from resume.prems(1) have dist: "distinct (map (rel e) ?ys)"
    and notin: "rel e f \<notin> rel e ` set ?ys"
    by auto
  have same: "map_of ?st1 (rel e g) = map_of st (rel e g)" if "g \<in> set ?ys" for g
  proof -
    from that notin have "rel e g \<noteq> rel e f" by (metis imageI)
    then show ?thesis by (simp add: update_conv')
  qed
  have stf: "statSync e f = Some sz" "needsIngest sz (map_of st (rel e f))"
    using awaiting_preds [OF resume.prems(2) [simplified], of f sz] by simp_all
  with resume.hyps(1) have ing: "ingests e st f" and nf: "\<not> fails e st f"
    and ingd: "ingested e f = newTrack e f sz c"
    by (simp_all add: ingests_def fails_def ingested_def)
  have ok1: "awaiting_ok e ?st1 (aw1 @ aw2)"
    unfolding awaiting_ok_def
  proof (intro ballI, clarify)
    fix g sz' assume g: "(g, sz') \<in> set (aw1 @ aw2)"
    then have "(g, sz') \<in> set (aw1 @ (f, sz) # aw2)" by auto
    from awaiting_preds [OF resume.prems(2) [simplified] this]
    have "statSync e g = Some sz'" "needsIngest sz' (map_of st (rel e g))" .
    moreover from g have "g \<in> set ?ys" by force
    ultimately show "statSync e g = Some sz' \<and> needsIngest sz' (map_of ?st1 (rel e g))"
      by (simp add: same)
  qed
  have IH: "outcome_of e ?ys (?st1, n + 1, p @ [f]) out"
    using resume.IH [OF dist] ok1 by simp
  have fails1: "fails e ?st1 g = fails e st g" if "g \<in> set ?ys" for g
    using preds_cong(1) [OF same [OF that]] .
  have ing1: "ingests e ?st1 g = ingests e st g" if "g \<in> set ?ys" for g
    using preds_cong(3) [OF same [OF that]] .
  have filt1: "filter (ingests e ?st1) ?ys = filter (ingests e st) ?ys"
    using ing1 by (intro filter_cong) auto
  have setx: "set ?xs = insert f (set ?ys)" by auto
  have filtx_set: "set (filter (ingests e st) ?xs) = insert f (set (filter (ingests e st) ?ys))"
    using ing by auto
  have filtx_len: "length (filter (ingests e st) ?xs) = Suc (length (filter (ingests e st) ?ys))"
    using ing by simp
  show ?case
  proof (cases out)
    case (Inl err)
    with IH obtain g where "g \<in> set ?ys" "fails e ?st1 g" by (auto simp: outcome_of_def)
    with fails1 have "g \<in> set ?xs" "fails e st g" by auto
    with Inl show ?thesis by (auto simp: outcome_of_def)
  next
    case (Inr res)
    obtain st' n' p' where res: "res = (st', n', p')" by (cases res) auto
    from IH Inr res have
      a: "\<forall>g \<in> set ?ys. \<not> fails e ?st1 g"
      and b: "n' = n + 1 + length (filter (ingests e ?st1) ?ys)"
      and c: "set p' = set (p @ [f]) \<union> set (filter (ingests e ?st1) ?ys)"
      and d: "\<forall>g \<in> set ?ys. ingests e ?st1 g \<longrightarrow> map_of st' (rel e g) = Some (ingested e g)"
      and fr: "\<forall>k. k \<notin> rel e ` set (filter (ingests e ?st1) ?ys) \<longrightarrow> map_of st' k = map_of ?st1 k"
      by (simp_all add: outcome_of_def)
    have a': "\<forall>g \<in> set ?xs. \<not> fails e st g"
      using a fails1 nf unfolding setx by auto
    have b': "n' = n + length (filter (ingests e st) ?xs)"
      using b by (simp only: filt1 filtx_len)
    have c': "set p' = set p \<union> set (filter (ingests e st) ?xs)"
      using c by (simp only: filt1 filtx_set) auto
    have "rel e f \<notin> rel e ` set (filter (ingests e ?st1) ?ys)"
      using notin by auto
    with fr have "map_of st' (rel e f) = map_of ?st1 (rel e f)" by blast
    then have atf: "map_of st' (rel e f) = Some (ingested e f)"
      by (simp add: update_conv' ingd)
    have d': "\<forall>g \<in> set ?xs. ingests e st g \<longrightarrow> map_of st' (rel e g) = Some (ingested e g)"
      using d ing1 atf unfolding setx by auto
    have fr': "\<forall>k. k \<notin> rel e ` set (filter (ingests e st) ?xs) \<longrightarrow> map_of st' k = map_of st k"
    proof (intro allI impI)
      fix k assume k: "k \<notin> rel e ` set (filter (ingests e st) ?xs)"
      then have kf: "k \<noteq> rel e f" and "k \<notin> rel e ` set (filter (ingests e ?st1) ?ys)"
        unfolding filtx_set filt1 by auto
      with fr have "map_of st' k = map_of ?st1 k" by blast
      with kf show "map_of st' k = map_of st k" by (simp add: update_conv')
    qed
    from a' b' c' d' fr' show ?thesis
      unfolding outcome_of_def Inr res by simp
  qed
qed

lemma outcome_of_Inr_unique:
  assumes "outcome_of e xs (st, n, p) (Inr (st1, n1, p1))"
    and "outcome_of e xs (st, n, p) (Inr (st2, n2, p2))"
  shows "map_of st1 = map_of st2 \<and> n1 = n2 \<and> set p1 = set p2"
proof -
  have "map_of st1 k = map_of st2 k" for k
  proof (cases "k \<in> rel e ` set (filter (ingests e st) xs)")
    case True
    then obtain g where "g \<in> set xs" "ingests e st g" "k = rel e g" by auto
    with assms show ?thesis by (simp add: outcome_of_def)
  next
    case False
    with assms show ?thesis by (simp add: outcome_of_def)
  qed
  then have "map_of st1 = map_of st2" by (rule ext)
  with assms show ?thesis by (simp add: outcome_of_def)
qed

lemma outcome_of_same_kind:
  assumes "outcome_of e xs vars out1" and "outcome_of e xs vars out2"
  shows "isl out1 = isl out2"
  using assms by (cases vars; cases out1; cases out2) (auto simp: outcome_of_def)

lemma runs_agree_with_indexAll:
  assumes keys: "distinct (map (rel e) fs)"
    and run: "runs e fs [] (st, n, p) out"
  shows "case out of
           Inl err \<Rightarrow> (\<exists>err'. indexAll e fs (st, n, p) = Inl err')
         | Inr (st', n', p') \<Rightarrow>
             (\<exists>st'' p''. indexAll e fs (st, n, p) = Inr (st'', n', p'') \<and>
                map_of st'' = map_of st' \<and> set p'' = set p')"
proof -
  have "awaiting_ok e (fst (st, n, p)) []" by (simp add: awaiting_ok_def)
  with runs_outcome [OF run] keys have out: "outcome_of e fs (st, n, p) out" by simp
  have seq: "outcome_of e fs (st, n, p) (indexAll e fs (st, n, p))"
    using keys by (rule indexAll_outcome)
  show ?thesis
  proof (cases out)
    case (Inl err)
    with outcome_of_same_kind [OF out seq] have "isl (indexAll e fs (st, n, p))" by simp
    with Inl show ?thesis by (auto simp: isl_def)
  next
    case (Inr res)
    obtain st' n' p' where res: "res = (st', n', p')" by (cases res) auto
    from Inr outcome_of_same_kind [OF out seq] obtain res2 where
      r2: "indexAll e fs (st, n, p) = Inr res2"
      by (cases "indexAll e fs (st, n, p)") auto
    obtain st'' n'' p'' where res2: "res2 = (st'', n'', p'')" by (cases res2) auto
    from outcome_of_Inr_unique [of e fs st n p st'' n'' p'' st' n' p'] seq out
    have "map_of st'' = map_of st' \<and> n'' = n' \<and> set p'' = set p'"
      by (simp add: r2 res2 Inr res)
    with r2 res2 Inr res show ?thesis by simp
  qed
qed

subsection \<open>A whole run\<close>

lemma scanAndIndex_files:
  "absFiles e = Inr fs \<Longrightarrow>
     scanAndIndex e d =
       (case indexAll e fs (loadState d, 0, []) of
          Inl err \<Rightarrow> (Inl err, d)
        | Inr (st, n, pushed) \<Rightarrow>
            if state_writable e
            then (Inr (\<lparr>total' = length fs, added = n\<rparr>, pushed), Some (Json st))
            else (Inl WriteError, if write_fails_opened e then Some Corrupt else d))"
  by (simp add: scanAndIndex_def saveState_def writeFileSync_upto_def split: sum.splits)

lemma scanAndIndex_Inl:
  "scanAndIndex e d = (Inl err, d') \<Longrightarrow>
     d' = d \<or> (err = WriteError \<and> \<not> state_writable e \<and> write_fails_opened e \<and> d' = Some Corrupt)"
  by (auto simp: scanAndIndex_def saveState_def writeFileSync_upto_def split: sum.splits if_splits)

lemma scanAndIndex_Inr:
  assumes "scanAndIndex e d = (Inr (r, pushed), d')"
  obtains fs st where "absFiles e = Inr fs"
    "indexAll e fs (loadState d, 0, []) = Inr (st, added r, pushed)"
    "total' r = length fs" "d' = Some (Json st)" "state_writable e"
  using assms
  by (auto simp: scanAndIndex_def saveState_def writeFileSync_upto_def split: sum.splits if_splits)

lemma loadState_Json: "loadState (Some (Json st)) = st"
  by (simp add: loadState_def)

lemma indexAll_pushed_bound:
  "indexAll e fs (st, n, p) = Inr (st', n', p') \<Longrightarrow> f \<in> set p' \<Longrightarrow> f \<notin> set p \<Longrightarrow>
     \<exists>t. map_of st' (rel e f) = Some t \<and> relativePath t = rel e f"
proof (induction fs arbitrary: st n p)
  case Nil
  then show ?case by simp
next
  case (Cons g fs)
  from Cons.prems(1) obtain st1 n1 p1 where
    step: "indexFile e g (st, n, p) = Inr (st1, n1, p1)" and
    rest: "indexAll e fs (st1, n1, p1) = Inr (st', n', p')"
    by (auto split: sum.splits)
  show ?case
  proof (cases "f \<in> set p1")
    case False
    from Cons.IH [OF rest Cons.prems(2) False] show ?thesis .
  next
    case True
    with step Cons.prems(3) have fg: "f = g"
      and st1: "st1 = AList.update (rel e g) (ingested e g) st"
      by (auto simp: indexFile_cases split: if_splits)
    then have at1: "map_of st1 (rel e f) = Some (ingested e f)" by (simp add: update_conv')
    then have "rel e f \<in> dom (map_of st1)" by auto
    with rest have "rel e f \<in> dom (map_of st')" by (rule indexAll_dom)
    then obtain t where t: "map_of st' (rel e f) = Some t" by auto
    from indexAll_fresh [OF rest t] at1 have "relativePath t = rel e f"
      by (auto simp: relativePath_newTrack ingested_def)
    with t show ?thesis by auto
  qed
qed

text \<open>The metadata extractor decides nothing but the metadata fields.\<close>

lemma agree_refl: "agree a a"
  by (simp add: agree_def)

lemma needsIngest_agree:
  assumes "agree a b"
  shows "needsIngest sz (map_of a k) = needsIngest sz (map_of b k)"
proof -
  from assms have "map_option (\<lambda>t. (size' t, cid t)) (map_of a k) =
      map_option (\<lambda>t. (size' t, cid t)) (map_of b k)"
    by (simp add: agree_def)
  then show ?thesis
    by (cases "map_of a k"; cases "map_of b k") (auto simp: needsIngest_def)
qed

lemma agree_update:
  assumes "agree a b" and "size' t = size' u" and "cid t = cid u"
  shows "agree (AList.update k t a) (AList.update k u b)"
  using assms by (simp add: agree_def update_conv')

lemma newTrack_parseFile:
  "size' (newTrack (e\<lparr>parseFile := pf\<rparr>) f sz c) = size' (newTrack e f sz c)"
  "cid (newTrack (e\<lparr>parseFile := pf\<rparr>) f sz c) = cid (newTrack e f sz c)"
  by (simp_all add: newTrack_def Let_def)

lemma indexFile_parseFile:
  assumes "agree a b"
  shows "case indexFile e f (a, n, p) of
           Inl err \<Rightarrow> indexFile (e\<lparr>parseFile := pf\<rparr>) f (b, n, p) = Inl err
         | Inr (a', n', p') \<Rightarrow>
             \<exists>b'. indexFile (e\<lparr>parseFile := pf\<rparr>) f (b, n, p) = Inr (b', n', p') \<and> agree a' b'"
proof (cases "statSync e f")
  case None
  then show ?thesis by (simp add: indexFile_def)
next
  case (Some sz)
  note ni = needsIngest_agree [OF assms, of sz "rel e f"]
  show ?thesis
  proof (cases "needsIngest sz (map_of a (rel e f))")
    case False
    with Some ni assms show ?thesis by (simp add: indexFile_def)
  next
    case True
    show ?thesis
    proof (cases "ipfs_add e f")
      case None
      with Some True ni show ?thesis by (simp add: indexFile_def)
    next
      case (Some c)
      have "agree (AList.update (rel e f) (newTrack e f sz c) a)
          (AList.update (rel e f) (newTrack (e\<lparr>parseFile := pf\<rparr>) f sz c) b)"
        using assms by (rule agree_update) (simp_all add: newTrack_parseFile)
      with Some \<open>statSync e f = Some sz\<close> True ni show ?thesis by (simp add: indexFile_def)
    qed
  qed
qed

lemma indexAll_parseFile:
  "agree a b \<Longrightarrow>
     (case indexAll e fs (a, n, p) of
        Inl err \<Rightarrow> indexAll (e\<lparr>parseFile := pf\<rparr>) fs (b, n, p) = Inl err
      | Inr (a', n', p') \<Rightarrow>
          \<exists>b'. indexAll (e\<lparr>parseFile := pf\<rparr>) fs (b, n, p) = Inr (b', n', p') \<and> agree a' b')"
proof (induction fs arbitrary: a b n p)
  case Nil
  then show ?case by simp
next
  case (Cons f fs)
  show ?case
  proof (cases "indexFile e f (a, n, p)")
    case (Inl err)
    with indexFile_parseFile [OF Cons.prems, where e = e and f = f and n = n and p = p and pf = pf]
    show ?thesis by simp
  next
    case (Inr vars)
    obtain a1 n1 p1 where vars: "vars = (a1, n1, p1)" by (cases vars) auto
    with Inr indexFile_parseFile [OF Cons.prems, where e = e and f = f and n = n and p = p and pf = pf]
    obtain b1 where
      b1: "indexFile (e\<lparr>parseFile := pf\<rparr>) f (b, n, p) = Inr (b1, n1, p1)" "agree a1 b1"
      by auto
    from Cons.IH [OF b1(2), where n = n1 and p = p1] Inr vars b1(1) show ?thesis
      by (auto split: sum.splits)
  qed
qed

lemma absFiles_parseFile: "absFiles (e\<lparr>parseFile := pf\<rparr>) = absFiles e"
proof -
  have "isAudioFile (e\<lparr>parseFile := pf\<rparr>) = isAudioFile e"
    by (simp add: fun_eq_iff isAudioFile_def)
  then show ?thesis by (simp add: absFiles_def split: sum.splits)
qed

lemma scanAndIndex_parseFile:
  "fst (scanAndIndex (e\<lparr>parseFile := pf\<rparr>) d) = fst (scanAndIndex e d)"
proof (cases "absFiles e")
  case (Inl err)
  then show ?thesis by (simp add: scanAndIndex_def absFiles_parseFile)
next
  case (Inr fs)
  then have fs2: "absFiles (e\<lparr>parseFile := pf\<rparr>) = Inr fs" by (simp add: absFiles_parseFile)
  from indexAll_parseFile [OF agree_refl, where e = e and fs = fs and a = "loadState d" and n = 0
      and p = "[]" and pf = pf]
  show ?thesis
    by (auto simp: scanAndIndex_files [OF Inr] scanAndIndex_files [OF fs2] split: sum.splits)
qed

lemma newTrack_no_meta:
  "parseFile e f = None \<Longrightarrow>
     newTrack e f sz c =
       \<lparr>relativePath = rel e f, cid = Some c, size' = Some sz, title = None, artist = None,
        album = None, duration = None, mime = Some (mimeType e f)\<rparr>"
  by (simp add: newTrack_def readMeta_def Let_def)

lemma mimeType_nonempty: "mimeType e f \<noteq> []"
  by (simp add: mimeType_def split: option.splits)

subsection \<open>The example runs\<close>

lemmas demo_simps =
  demo_env_def demo_tree_def demo_track_def demo_catalog_def demo_files_def
  posix_join_def absFiles_def isAudioFile_def toLowerCase_def AUDIO_EXTS_def
  scanAndIndex_def loadState_def saveState_def writeFileSync_upto_def indexFile_def
  needsIngest_def truthy_def newTrack_def readMeta_def mimeType_def Let_def

lemma demo_absFiles: "absFiles demo_env = Inr demo_files"
  by (simp add: demo_simps)

lemma demo_absFiles_push_fails: "absFiles demo_env_push_fails = Inr demo_files"
  by (simp add: demo_env_push_fails_def demo_simps)

lemma demo_keys: "distinct (map (rel demo_env) demo_files)"
  by (simp add: demo_simps)

lemma demo_keys_push_fails: "distinct (map (rel demo_env_push_fails) demo_files)"
  by (simp add: demo_env_push_fails_def demo_simps)

lemma demo_first_run:
  "scanAndIndex demo_env None = (Inr (\<lparr>total' = 3, added = 3\<rparr>, demo_files), Some (Json demo_catalog))"
  by (simp add: demo_simps)

lemma demo_update_run:
  "scanAndIndex demo_env (Some (Json demo_old_catalog)) =
     (Inr (\<lparr>total' = 3, added = 3\<rparr>, demo_files), Some (Json demo_new_catalog))"
  by (simp add: demo_simps demo_old_catalog_def demo_new_catalog_def demo_gone_def)

subsection \<open>Failures of single files\<close>

text \<open>
  Claim C1, as the code has it, for candidate files with distinct relative paths: when
  \<open>statSync\<close> or the push fails for some candidate file, the run fails as a whole; it
  returns no result and writes nothing, so the catalog file is what it was before the
  run. When no candidate file fails and the catalog file can be written, the run returns
  the number of candidates as \<open>total\<close> and the number of ingested files as \<open>added\<close>,
  and the catalog it writes holds the new entry of every ingested file and is unchanged
  under every other key.
\<close>

theorem C1_run_all_or_nothing:
  assumes files: "absFiles e = Inr fs" and keys: "distinct (map (rel e) fs)"
  shows "((\<exists>f \<in> set fs. fails e (loadState d) f) \<longrightarrow> (\<exists>err. scanAndIndex e d = (Inl err, d))) \<and>
    ((\<forall>f \<in> set fs. \<not> fails e (loadState d) f) \<and> state_writable e \<longrightarrow>
       (\<exists>st'. scanAndIndex e d =
            (Inr (\<lparr>total' = length fs, added = length (filter (ingests e (loadState d)) fs)\<rparr>,
                  filter (ingests e (loadState d)) fs),
             Some (Json st')) \<and>
          (\<forall>f \<in> set fs. ingests e (loadState d) f \<longrightarrow> map_of st' (rel e f) = Some (ingested e f)) \<and>
          (\<forall>k. k \<notin> rel e ` set (filter (ingests e (loadState d)) fs) \<longrightarrow>
             map_of st' k = map_of (loadState d) k)))"
proof (intro conjI impI)
  assume "\<exists>f \<in> set fs. fails e (loadState d) f"
  with keys obtain err where "indexAll e fs (loadState d, 0, []) = Inl err"
    using indexAll_fails by blast
  then show "\<exists>err. scanAndIndex e d = (Inl err, d)"
    by (simp add: scanAndIndex_files [OF files])
next
  assume ok: "(\<forall>f \<in> set fs. \<not> fails e (loadState d) f) \<and> state_writable e"
  let ?new = "filter (ingests e (loadState d)) fs"
  from ok keys obtain st' where
    run: "indexAll e fs (loadState d, 0, []) = Inr (st', 0 + length ?new, [] @ ?new)"
    and new: "\<forall>f \<in> set fs. ingests e (loadState d) f \<longrightarrow> map_of st' (rel e f) = Some (ingested e f)"
    using indexAll_succeeds [of e fs "loadState d" 0 "[]"] by blast
  from indexAll_frame [OF run] have
    frame: "\<forall>k. k \<notin> rel e ` set ?new \<longrightarrow> map_of st' k = map_of (loadState d) k"
    by auto
  from run ok have "scanAndIndex e d =
      (Inr (\<lparr>total' = length fs, added = length ?new\<rparr>, ?new), Some (Json st'))"
    by (simp add: scanAndIndex_files [OF files])
  with new frame show "\<exists>st'. scanAndIndex e d =
            (Inr (\<lparr>total' = length fs, added = length ?new\<rparr>, ?new), Some (Json st')) \<and>
          (\<forall>f \<in> set fs. ingests e (loadState d) f \<longrightarrow> map_of st' (rel e f) = Some (ingested e f)) \<and>
          (\<forall>k. k \<notin> rel e ` set ?new \<longrightarrow> map_of st' k = map_of (loadState d) k)"
    by blast
qed

text \<open>
  The claim as stated fails: of three candidate files the push fails for one; the run
  throws instead of reporting \<open>total = 3, added = 2\<close>, and the catalog file still holds
  only the prior entry.
\<close>

theorem C1_push_failure_aborts:
  "absFiles demo_env_push_fails = Inr [''/music/a.mp3'', ''/music/sub/b.FLAC'', ''/music/sub/c.ogg''] \<and>
   ipfs_add demo_env_push_fails ''/music/a.mp3'' = Some ''Qm/music/a.mp3'' \<and>
   ipfs_add demo_env_push_fails ''/music/sub/b.FLAC'' = None \<and>
   ipfs_add demo_env_push_fails ''/music/sub/c.ogg'' = Some ''Qm/music/sub/c.ogg'' \<and>
   scanAndIndex demo_env_push_fails (Some (Json [(''sub/b.FLAC'', demo_track)])) =
     (Inl AddError, Some (Json [(''sub/b.FLAC'', demo_track)]))"
  by (simp add: demo_env_push_fails_def demo_simps)

theorem C1_run_witness:
  "fails demo_env_push_fails (loadState None) ''/music/sub/b.FLAC'' \<and>
   scanAndIndex demo_env_push_fails None = (Inl AddError, None) \<and>
   state_writable demo_env \<and>
   scanAndIndex demo_env None = (Inr (\<lparr>total' = 3, added = 3\<rparr>, demo_files), Some (Json demo_catalog))"
proof -
  have 0: "fails demo_env_push_fails (loadState None) ''/music/sub/b.FLAC''"
    by (simp add: fails_def demo_env_push_fails_def demo_simps)
  then have 1: "\<exists>f \<in> set demo_files. fails demo_env_push_fails (loadState None) f"
    by (simp add: demo_files_def)
  have 2: "(\<forall>f \<in> set demo_files. \<not> fails demo_env (loadState None) f) \<and> state_writable demo_env"
    by (simp add: fails_def demo_simps)
  from C1_run_all_or_nothing [OF demo_absFiles_push_fails demo_keys_push_fails, of None] 1
  have "\<exists>err. scanAndIndex demo_env_push_fails None = (Inl err, None)" by blast
  moreover have "fst (scanAndIndex demo_env_push_fails None) = Inl AddError"
    by (simp add: demo_env_push_fails_def demo_simps)
  ultimately have 3: "scanAndIndex demo_env_push_fails None = (Inl AddError, None)" by auto
  from C1_run_all_or_nothing [OF demo_absFiles demo_keys, of None] 2
  obtain st' where "scanAndIndex demo_env None =
      (Inr (\<lparr>total' = length demo_files,
            added = length (filter (ingests demo_env (loadState None)) demo_files)\<rparr>,
            filter (ingests demo_env (loadState None)) demo_files), Some (Json st'))"
    by blast
  with demo_first_run have 4: "scanAndIndex demo_env None =
      (Inr (\<lparr>total' = 3, added = 3\<rparr>, demo_files), Some (Json demo_catalog))" by simp
  from 0 2 3 4 show ?thesis by blast
qed

subsection \<open>Idempotency\<close>

text \<open>
  Claim C3: after a run that returned, a second run in the same environment (the same
  files, sizes and store) ingests nothing: it returns \<open>added = 0\<close>, pushes no file to
  the store and leaves the catalog file as it is. The candidate files have distinct
  relative paths, and the store returns no empty identifier for them.
\<close>

theorem C3_second_run_idle:
  assumes first: "scanAndIndex e d = (Inr (r, pushed), d')"
    and files: "absFiles e = Inr fs"
    and keys: "distinct (map (rel e) fs)"
    and cids: "\<forall>f \<in> set fs. \<forall>c. ipfs_add e f = Some c \<longrightarrow> c \<noteq> []"
  shows "scanAndIndex e d' = (Inr (\<lparr>total' = length fs, added = 0\<rparr>, []), d')"
proof -
  from first files obtain st where
    run: "indexAll e fs (loadState d, 0, []) = Inr (st, added r, pushed)"
    and d': "d' = Some (Json st)" and w: "state_writable e"
    by (auto elim!: scanAndIndex_Inr)
  from run keys cids have "\<forall>f \<in> set fs. skips e st f" by (rule skips_after_indexAll)
  then have "indexAll e fs (st, 0, []) = Inr (st, 0, [])" by (rule indexAll_skips)
  with files d' w show ?thesis by (simp add: scanAndIndex_files loadState_Json)
qed

theorem C3_second_run_witness:
  "scanAndIndex demo_env None = (Inr (\<lparr>total' = 3, added = 3\<rparr>, demo_files), Some (Json demo_catalog)) \<and>
   scanAndIndex demo_env (Some (Json demo_catalog)) =
     (Inr (\<lparr>total' = 3, added = 0\<rparr>, []), Some (Json demo_catalog))"
proof -
  have cids: "\<forall>f \<in> set demo_files. \<forall>c. ipfs_add demo_env f = Some c \<longrightarrow> c \<noteq> []"
    by (simp add: demo_env_def)
  from C3_second_run_idle [OF demo_first_run demo_absFiles demo_keys cids] demo_first_run
  show ?thesis by (simp add: demo_files_def)
qed

subsection \<open>No entry is removed\<close>



subsection \<open>Metadata is best effort\<close>

text \<open>
  Claim C6: whether a run returns, what it returns and what it pushes is the same for
  every metadata extractor. The task of a file on which \<open>parseFile\<close> throws, whose size
  can be read, which has to be ingested and whose push the store answers, writes the
  entry with the identifier the store returned, the size of the file and a \<open>mime\<close> that
  is not empty, and with no title, artist, album or duration. In a run over candidate
  files with distinct relative paths in which neither \<open>statSync\<close> nor a push nor the save
  fails, such a file is pushed and has that entry in the catalog the run writes.
\<close>

theorem C6_metadata_best_effort:
  "(\<forall>pf. fst (scanAndIndex (e\<lparr>parseFile := pf\<rparr>) d) = fst (scanAndIndex e d)) \<and>
   (parseFile e f = None \<and> statSync e f = Some sz \<and> ipfs_add e f = Some c \<and>
    needsIngest sz (map_of st (rel e f)) \<longrightarrow>
      indexFile e f (st, n, p) =
        Inr (AList.update (rel e f)
               \<lparr>relativePath = rel e f, cid = Some c, size' = Some sz, title = None,
                artist = None, album = None, duration = None, mime = Some (mimeType e f)\<rparr> st,
             n + 1, p @ [f]) \<and>
      mimeType e f \<noteq> []) \<and>
   (absFiles e = Inr fs \<and> distinct (map (rel e) fs) \<and>
    (\<forall>g \<in> set fs. \<not> fails e (loadState d) g) \<and> state_writable e \<and>
    f \<in> set fs \<and> ingests e (loadState d) f \<and> parseFile e f = None \<longrightarrow>
      (\<exists>st' r pushed sz c.
         scanAndIndex e d = (Inr (r, pushed), Some (Json st')) \<and> f \<in> set pushed \<and>
         statSync e f = Some sz \<and> ipfs_add e f = Some c \<and>
         map_of st' (rel e f) =
           Some \<lparr>relativePath = rel e f, cid = Some c, size' = Some sz, title = None,
                 artist = None, album = None, duration = None, mime = Some (mimeType e f)\<rparr>))"
proof (intro conjI impI allI)
  fix pf
  show "fst (scanAndIndex (e\<lparr>parseFile := pf\<rparr>) d) = fst (scanAndIndex e d)"
    by (rule scanAndIndex_parseFile)
next
  assume "parseFile e f = None \<and> statSync e f = Some sz \<and> ipfs_add e f = Some c \<and>
    needsIngest sz (map_of st (rel e f))"
  then show "indexFile e f (st, n, p) =
        Inr (AList.update (rel e f)
               \<lparr>relativePath = rel e f, cid = Some c, size' = Some sz, title = None,
                artist = None, album = None, duration = None, mime = Some (mimeType e f)\<rparr> st,
             n + 1, p @ [f])"
    by (simp add: indexFile_def newTrack_no_meta Let_def)
next
  show "mimeType e f \<noteq> []" by (rule mimeType_nonempty)
next
  assume H: "absFiles e = Inr fs \<and> distinct (map (rel e) fs) \<and>
    (\<forall>g \<in> set fs. \<not> fails e (loadState d) g) \<and> state_writable e \<and>
    f \<in> set fs \<and> ingests e (loadState d) f \<and> parseFile e f = None"
  let ?new = "filter (ingests e (loadState d)) fs"
  from H obtain st' where
    ia: "indexAll e fs (loadState d, 0, []) = Inr (st', 0 + length ?new, [] @ ?new)"
    and new: "\<forall>g \<in> set fs. ingests e (loadState d) g \<longrightarrow> map_of st' (rel e g) = Some (ingested e g)"
    using indexAll_succeeds [of e fs "loadState d" 0 "[]"] by blast
  from H ia have run: "scanAndIndex e d =
      (Inr (\<lparr>total' = length fs, added = length ?new\<rparr>, ?new), Some (Json st'))"
    by (simp add: scanAndIndex_files)
  from H have pushed: "f \<in> set ?new" by simp
  from H obtain sz c where sc: "statSync e f = Some sz" "ipfs_add e f = Some c"
    by (auto simp: ingests_def split: option.splits)
  from H new have "map_of st' (rel e f) = Some (ingested e f)" by blast
  with H sc have "map_of st' (rel e f) =
      Some \<lparr>relativePath = rel e f, cid = Some c, size' = Some sz, title = None,
            artist = None, album = None, duration = None, mime = Some (mimeType e f)\<rparr>"
    by (simp add: ingested_def newTrack_no_meta)
  with run pushed sc show "\<exists>st' r pushed sz c.
         scanAndIndex e d = (Inr (r, pushed), Some (Json st')) \<and> f \<in> set pushed \<and>
         statSync e f = Some sz \<and> ipfs_add e f = Some c \<and>
         map_of st' (rel e f) =
           Some \<lparr>relativePath = rel e f, cid = Some c, size' = Some sz, title = None,
                 artist = None, album = None, duration = None, mime = Some (mimeType e f)\<rparr>"
    by blast
qed

theorem C6_metadata_witness:
  "parseFile demo_env ''/music/sub/c.ogg'' = None \<and>
   ingests demo_env (loadState None) ''/music/sub/c.ogg'' \<and>
   scanAndIndex demo_env None = (Inr (\<lparr>total' = 3, added = 3\<rparr>, demo_files), Some (Json demo_catalog)) \<and>
   map_of demo_catalog ''sub/c.ogg'' =
     Some \<lparr>relativePath = ''sub/c.ogg'', cid = Some ''Qm/music/sub/c.ogg'', size' = Some 7,
           title = None, artist = None, album = None, duration = None,
           mime = Some ''application/octet-stream''\<rparr> \<and>
   fst (scanAndIndex (demo_env\<lparr>parseFile := (\<lambda>p. None)\<rparr>) None) =
     Inr (\<lparr>total' = 3, added = 3\<rparr>, demo_files)"
proof -
  have meta: "parseFile demo_env ''/music/sub/c.ogg'' = None" by (simp add: demo_env_def)
  have ing: "ingests demo_env (loadState None) ''/music/sub/c.ogg''"
    by (simp add: ingests_def demo_simps)
  have nofail: "\<forall>g \<in> set demo_files. \<not> fails demo_env (loadState None) g"
    by (simp add: fails_def demo_simps)
  have w: "state_writable demo_env" by (simp add: demo_env_def)
  have f: "''/music/sub/c.ogg'' \<in> set demo_files" by (simp add: demo_files_def)
  note c6 = C6_metadata_best_effort [of demo_env None "''/music/sub/c.ogg''" _ _ _ _ _ demo_files]
  from c6 demo_absFiles demo_keys nofail w f ing meta
  obtain st' r pushed sz c where
    run: "scanAndIndex demo_env None = (Inr (r, pushed), Some (Json st'))"
    and sc: "statSync demo_env ''/music/sub/c.ogg'' = Some sz"
      "ipfs_add demo_env ''/music/sub/c.ogg'' = Some c"
    and entry: "map_of st' (rel demo_env ''/music/sub/c.ogg'') =
      Some \<lparr>relativePath = rel demo_env ''/music/sub/c.ogg'', cid = Some c, size' = Some sz,
            title = None, artist = None, album = None, duration = None,
            mime = Some (mimeType demo_env ''/music/sub/c.ogg'')\<rparr>"
    by blast
  from run demo_first_run have st': "st' = demo_catalog" by simp
  from entry sc have 1: "map_of demo_catalog ''sub/c.ogg'' =
     Some \<lparr>relativePath = ''sub/c.ogg'', cid = Some ''Qm/music/sub/c.ogg'', size' = Some 7,
           title = None, artist = None, album = None, duration = None,
           mime = Some ''application/octet-stream''\<rparr>"
    unfolding st' by (auto simp: demo_env_def mimeType_def)
  from c6 have "fst (scanAndIndex (demo_env\<lparr>parseFile := (\<lambda>p. None)\<rparr>) None) =
      fst (scanAndIndex demo_env None)" by blast
  with demo_first_run have 2: "fst (scanAndIndex (demo_env\<lparr>parseFile := (\<lambda>p. None)\<rparr>) None) =
     Inr (\<lparr>total' = 3, added = 3\<rparr>, demo_files)" by simp
  from meta ing demo_first_run 1 2 show ?thesis by simp
qed

subsection \<open>Keys are relative paths\<close>

text \<open>
  Claim C10: in the catalog a run writes, every entry that is not an unchanged entry of
  the loaded catalog stands under the key that is its own \<open>relativePath\<close>, and the key of
  every pushed file holds an entry with that key as \<open>relativePath\<close>.
\<close>

theorem C10_key_is_relativePath:
  assumes run: "scanAndIndex e d = (Inr (r, pushed), d')"
  shows "(\<forall>k t. map_of (loadState d') k = Some t \<longrightarrow>
            map_of (loadState d) k = Some t \<or> relativePath t = k) \<and>
         (\<forall>f \<in> set pushed. \<exists>t. map_of (loadState d') (rel e f) = Some t \<and>
            relativePath t = rel e f)"
proof -
  from run obtain fs st where
    ia: "indexAll e fs (loadState d, 0, []) = Inr (st, added r, pushed)"
    and d': "d' = Some (Json st)"
    by (auto elim!: scanAndIndex_Inr)
  have "map_of (loadState d) k = Some t \<or> relativePath t = k" if "map_of st k = Some t" for k t
    using indexAll_fresh [OF ia that] by (auto simp: relativePath_newTrack)
  moreover have "\<exists>t. map_of st (rel e f) = Some t \<and> relativePath t = rel e f"
    if "f \<in> set pushed" for f
    using indexAll_pushed_bound [OF ia that] by simp
  ultimately show ?thesis by (simp add: d' loadState_Json)
qed

theorem C10_key_witness:
  "scanAndIndex demo_env (Some (Json demo_old_catalog)) =
     (Inr (\<lparr>total' = 3, added = 3\<rparr>, demo_files), Some (Json demo_new_catalog)) \<and>
   (\<exists>t. map_of (loadState (Some (Json demo_new_catalog))) ''sub/b.FLAC'' = Some t \<and>
        relativePath t = ''sub/b.FLAC'')"
proof -
  have "''/music/sub/b.FLAC'' \<in> set demo_files" by (simp add: demo_files_def)
  with C10_key_is_relativePath [OF demo_update_run]
  have "\<exists>t. map_of (loadState (Some (Json demo_new_catalog))) (rel demo_env ''/music/sub/b.FLAC'') = Some t \<and>
        relativePath t = rel demo_env ''/music/sub/b.FLAC''"
    by blast
  moreover have "rel demo_env ''/music/sub/b.FLAC'' = ''sub/b.FLAC''" by (simp add: demo_env_def)
  ultimately show ?thesis using demo_update_run by simp
qed

subsection \<open>The content type of a stream\<close>

lemma find_first:
  "i < length xs \<Longrightarrow> P (xs ! i) \<Longrightarrow> \<forall>j < i. \<not> P (xs ! j) \<Longrightarrow> find P xs = Some (xs ! i)"
proof (induction xs arbitrary: i)
  case Nil
  then show ?case by simp
next
  case (Cons x xs)
  show ?case
  proof (cases i)
    case 0
    with Cons.prems show ?thesis by simp
  next
    case (Suc k)
    with Cons.prems have "\<not> P x" by auto
    moreover from Suc Cons.prems have "find P xs = Some (xs ! k)"
      by (intro Cons.IH) auto
    ultimately show ?thesis using Suc by simp
  qed
qed

text \<open>The program writes no entry without a \<open>mime\<close>.\<close>

lemma set_update_subset: "set (AList.update k v al) \<subseteq> insert (k, v) (set al)"
  by (induction al) auto

lemma mime_set_update:
  assumes "mime_set st" and "truthy (mime t)"
  shows "mime_set (AList.update k t st)"
  using assms set_update_subset [of k t st] by (fastforce simp: mime_set_def)

lemma indexFile_mime_set:
  assumes "indexFile e f (st, n, p) = Inr (st', n', p')" and "mime_set st"
  shows "mime_set st'"
proof (cases "skips e st f")
  case True
  with assms show ?thesis by (auto simp: indexFile_cases split: if_splits)
next
  case False
  have "truthy (mime (ingested e f))"
    by (simp add: ingested_def newTrack_def Let_def truthy_def mimeType_nonempty)
  with assms(2) have "mime_set (AList.update (rel e f) (ingested e f) st)"
    by (rule mime_set_update)
  with False assms(1) show ?thesis by (auto simp: indexFile_cases split: if_splits)
qed

lemma indexAll_mime_set:
  "indexAll e fs (st, n, p) = Inr (st', n', p') \<Longrightarrow> mime_set st \<Longrightarrow> mime_set st'"
proof (induction fs arbitrary: st n p)
  case Nil
  then show ?case by simp
next
  case (Cons f fs)
  from Cons.prems(1) obtain st1 n1 p1 where
    step: "indexFile e f (st, n, p) = Inr (st1, n1, p1)" and
    rest: "indexAll e fs (st1, n1, p1) = Inr (st', n', p')"
    by (auto split: sum.splits)
  from step Cons.prems(2) have "mime_set st1" by (rule indexFile_mime_set)
  with rest show ?case by (rule Cons.IH)
qed

lemma scanAndIndex_mime_set:
  assumes "scanAndIndex e d = (out, d')" and "mime_set (loadState d)"
  shows "mime_set (loadState d')"
proof (cases out)
  case (Inl err)
  with assms(1) scanAndIndex_Inl [of e d err d'] have "d' = d \<or> d' = Some Corrupt" by auto
  with assms(2) show ?thesis by (auto simp: loadState_def mime_set_def)
next
  case (Inr res)
  obtain r pushed where res: "res = (r, pushed)" by (cases res) auto
  from assms(1) Inr res obtain fs st where
    ia: "indexAll e fs (loadState d, 0, []) = Inr (st, added r, pushed)"
    and d': "d' = Some (Json st)"
    by (auto elim!: scanAndIndex_Inr)
  from ia assms(2) have "mime_set st" by (rule indexAll_mime_set)
  with d' show ?thesis by (simp add: loadState_Json)
qed

lemma reachable_mime_set: "reachable d \<Longrightarrow> mime_set (loadState d)"
proof (induction rule: reachable.induct)
  case absent
  show ?case by (simp add: loadState_def mime_set_def)
next
  case (run d e out d')
  from run.hyps(2) run.IH show ?case by (rule scanAndIndex_mime_set)
qed

text \<open>
  Claim C8: on every catalog file the program can leave (more generally, on every
  catalog in which each entry with a \<open>cid\<close> has a \<open>mime\<close> that is not empty), the
  content type served is the \<open>mime\<close> of the first entry, in enumeration order, whose
  \<open>cid\<close> is the requested identifier; when no entry has that identifier, it is
  \<open>audio/mpeg\<close>.
\<close>

theorem C8_stream_content_type:
  assumes "vs = map snd (loadState d)"
  shows "(reachable d \<longrightarrow> mime_set (loadState d)) \<and>
    ((\<forall>t \<in> set vs. cid t \<noteq> Some c) \<longrightarrow> stream_ct d c = ''audio/mpeg'') \<and>
    (mime_set (loadState d) \<longrightarrow>
       (\<forall>i. i < length vs \<and> cid (vs ! i) = Some c \<and> (\<forall>j < i. cid (vs ! j) \<noteq> Some c) \<longrightarrow>
          Some (stream_ct d c) = mime (vs ! i)))"
proof (intro conjI allI impI)
  assume "reachable d"
  then show "mime_set (loadState d)" by (rule reachable_mime_set)
next
  assume "\<forall>t \<in> set vs. cid t \<noteq> Some c"
  then have "find (\<lambda>t. cid t = Some c) vs = None" by (simp add: find_None_iff)
  with assms show "stream_ct d c = ''audio/mpeg''" by (simp add: stream_ct_def)
next
  fix i
  assume inv: "mime_set (loadState d)"
    and i: "i < length vs \<and> cid (vs ! i) = Some c \<and> (\<forall>j < i. cid (vs ! j) \<noteq> Some c)"
  then have found: "find (\<lambda>t. cid t = Some c) vs = Some (vs ! i)" by (intro find_first) auto
  from i assms have "vs ! i \<in> snd ` set (loadState d)" by (metis nth_mem set_map)
  then obtain k where "(k, vs ! i) \<in> set (loadState d)" by auto
  with inv i have "truthy (mime (vs ! i))" by (auto simp: mime_set_def)
  with found assms show "Some (stream_ct d c) = mime (vs ! i)"
    by (auto simp: stream_ct_def truthy_def split: option.splits)
qed

lemma demo_same_cid_run:
  "scanAndIndex demo_env_same_cid None =
     (Inr (\<lparr>total' = 3, added = 3\<rparr>, demo_files), Some (Json demo_same_catalog))"
  by (simp add: demo_env_same_cid_def demo_same_catalog_def demo_simps)

theorem C8_stream_witness:
  "reachable (Some (Json demo_same_catalog)) \<and>
   cid (snd (demo_same_catalog ! 1)) = Some ''QmSame'' \<and>
   cid (snd (demo_same_catalog ! 2)) = Some ''QmSame'' \<and>
   mime (snd (demo_same_catalog ! 2)) = Some ''application/octet-stream'' \<and>
   stream_ct (Some (Json demo_same_catalog)) ''QmSame'' = ''audio/flac'' \<and>
   stream_ct (Some (Json demo_same_catalog)) ''QmNone'' = ''audio/mpeg''"
proof -
  let ?d = "Some (Json demo_same_catalog)"
  let ?vs = "map snd (loadState ?d)"
  note c8 = C8_stream_content_type [of ?vs ?d, OF refl]
  have r: "reachable ?d"
    using reachable.absent demo_same_cid_run by (rule reachable.run)
  with c8 [of "''QmSame''"] have inv: "mime_set (loadState ?d)" by blast
  have "1 < length ?vs \<and> cid (?vs ! 1) = Some ''QmSame'' \<and> (\<forall>j < 1. cid (?vs ! j) \<noteq> Some ''QmSame'')"
    by (simp add: demo_same_catalog_def loadState_def)
  with c8 [of "''QmSame''"] inv have "Some (stream_ct ?d ''QmSame'') = mime (?vs ! 1)"
    by blast
  then have 1: "stream_ct ?d ''QmSame'' = ''audio/flac''"
    by (simp add: demo_same_catalog_def loadState_def)
  have "\<forall>t \<in> set ?vs. cid t \<noteq> Some ''QmNone''"
    by (simp add: demo_same_catalog_def loadState_def)
  with c8 [of "''QmNone''"] have 2: "stream_ct ?d ''QmNone'' = ''audio/mpeg''"
    by blast
  have 3: "cid (snd (demo_same_catalog ! 1)) = Some ''QmSame'' \<and>
      cid (snd (demo_same_catalog ! 2)) = Some ''QmSame'' \<and>
      mime (snd (demo_same_catalog ! 2)) = Some ''application/octet-stream''"
    by (simp add: demo_same_catalog_def)
  from r 1 2 3 show ?thesis by simp
qed

end
